theory Spec2Isabelle
  imports Main
begin

section \<open>Python values\<close>

text \<open>
  The values a trafaret is checked against: \<open>None\<close>, integers, strings, lists and dicts.
  A dict is an association list in insertion order; its keys are pairwise different in
  every dict Python can build (\<open>wf_dict\<close>). \<open>bool\<close> and \<open>float\<close> values are left out
  (\<open>True == 1 == 1.0\<close> as dict keys, and floating point), and with them the classes
  \<open>Float\<close>, \<open>Bool\<close> and the \<open>float\<close> branch of \<open>Int._converter\<close>.
\<close>

datatype pyval =
    PNone
  | PInt int
  | PStr string
  | PList "pyval list"
  | PDict "(pyval \<times> pyval) list"

type_synonym pydict = "(pyval \<times> pyval) list"

definition wf_dict :: "('k \<times> 'v) list \<Rightarrow> bool" where
  "wf_dict d = distinct (map fst d)"

text \<open>\<open>k in d\<close>, \<open>d[k] = v\<close> (an existing key keeps its place, a new one goes last),
  \<open>del d[k]\<close> and \<open>d.pop(k, default)\<close>.\<close>

definition dict_contains :: "'k \<Rightarrow> ('k \<times> 'v) list \<Rightarrow> bool" where
  "dict_contains k d = (map_of d k \<noteq> None)"

fun dict_setitem :: "'k \<Rightarrow> 'v \<Rightarrow> ('k \<times> 'v) list \<Rightarrow> ('k \<times> 'v) list" where
  "dict_setitem k v [] = [(k, v)]"
| "dict_setitem k v (p # ps) =
     (if fst p = k then (k, v) # ps else p # dict_setitem k v ps)"

definition dict_delitem :: "'k \<Rightarrow> ('k \<times> 'v) list \<Rightarrow> ('k \<times> 'v) list" where
  "dict_delitem k d = filter (\<lambda>p. fst p \<noteq> k) d"

definition dict_pop :: "'k \<Rightarrow> 'v \<Rightarrow> ('k \<times> 'v) list \<Rightarrow> 'v \<times> ('k \<times> 'v) list" where
  "dict_pop k dflt d =
     (case map_of d k of
        Some v \<Rightarrow> (v, dict_delitem k d)
      | None \<Rightarrow> (dflt, d))"

text \<open>Lists and dicts are unhashable: using one as a dict key raises \<open>TypeError\<close>.\<close>

fun hashable :: "pyval \<Rightarrow> bool" where
  "hashable (PList xs) = False"
| "hashable (PDict d) = False"
| "hashable v = True"

subsection \<open>Text of numbers, numbers of text\<close>

definition digit_char :: "nat \<Rightarrow> char" where
  "digit_char d = ''0123456789'' ! (d mod 10)"

fun str_nat :: "nat \<Rightarrow> string" where
  "str_nat n = (if n < 10 then [digit_char n] else str_nat (n div 10) @ [digit_char n])"

declare str_nat.simps [simp del]

definition str_int :: "int \<Rightarrow> string" where
  "str_int i = (if i < 0 then CHR ''-'' # str_nat (nat (- i)) else str_nat (nat i))"

text \<open>\<open>'%s' % key\<close> for the keys a dict of this embedding has.\<close>

fun py_str :: "pyval \<Rightarrow> string" where
  "py_str PNone = ''None''"
| "py_str (PInt i) = str_int i"
| "py_str (PStr s) = s"
| "py_str (PList xs) = ''[...]''"
| "py_str (PDict d) = ''{...}''"

text \<open>
  The builtin \<open>int\<close> on a \<open>str\<close>: blanks around an optional sign and a non-empty run of
  decimal digits; \<open>None\<close> where the builtin raises \<open>ValueError\<close>. (The digit-group
  underscores of later Python versions are left out.)
\<close>

definition is_space :: "char \<Rightarrow> bool" where
  "is_space c = (c \<in> set [CHR '' '', CHR 0x09, CHR 0x0A, CHR 0x0B, CHR 0x0C, CHR 0x0D])"

definition is_digit :: "char \<Rightarrow> bool" where
  "is_digit c = (c \<in> set ''0123456789'')"

definition digit_val :: "char \<Rightarrow> nat" where
  "digit_val c = (of_char c :: nat) - 48"

definition strip :: "string \<Rightarrow> string" where
  "strip s = rev (dropWhile is_space (rev (dropWhile is_space s)))"

definition nat_of_digits :: "string \<Rightarrow> nat option" where
  "nat_of_digits s =
     (if s \<noteq> [] \<and> list_all is_digit s
      then Some (foldl (\<lambda>acc c. 10 * acc + digit_val c) 0 s) else None)"

definition int_of_str :: "string \<Rightarrow> int option" where
  "int_of_str s =
     (case strip s of
        [] \<Rightarrow> None
      | c # cs \<Rightarrow>
          if c = CHR ''-'' then map_option (\<lambda>n. - int n) (nat_of_digits cs)
          else if c = CHR ''+'' then map_option int (nat_of_digits cs)
          else map_option int (nat_of_digits (c # cs)))"

section \<open>Errors\<close>

text \<open>
  \<open>DataError.error\<close> is a message or a dict of child errors. The other exceptions the
  engine raises are not \<open>DataError\<close>s: no \<open>except DataError\<close> of the engine catches them.
  \<open>RecursionError\<close> is what Python raises when the call stack is used up.
\<close>

datatype dataerror =
    ErrMsg string
  | ErrDict "(pyval \<times> dataerror) list"

datatype exn =
    DataError dataerror
  | RuntimeError string
  | AttributeError string
  | TypeError string
  | RecursionError

type_synonym res = "exn + pyval"

definition failure :: "string \<Rightarrow> exn + 'a" where
  "failure error = Inl (DataError (ErrMsg error))"

section \<open>Trafarets\<close>

text \<open>
  Every trafaret has the attribute \<open>converters\<close> once a converter was appended
  (\<open>None\<close> before). The classes: \<open>Any\<close>, \<open>Null\<close>, \<open>Int\<close> (\<open>gte\<close>, \<open>lte\<close>, \<open>gt\<close>, \<open>lt\<close>),
  \<open>String\<close> (\<open>allow_blank\<close>; \<open>regex\<close> is \<open>None\<close>), \<open>Call\<close> (\<open>fn\<close>), \<open>Or\<close> (\<open>trafarets\<close>),
  \<open>List\<close> (\<open>trafaret\<close>, \<open>min_length\<close>, \<open>max_length\<close>), \<open>Dict\<close> (\<open>extras\<close>, \<open>allow_any\<close>,
  \<open>ignore\<close>, \<open>ignore_any\<close>, \<open>keys\<close>), \<open>Mapping\<close> (\<open>key\<close>, \<open>value\<close>) and \<open>Forward\<close>.
  A \<open>Forward\<close> object is an address; its attribute \<open>trafaret\<close> lives in the store,
  so that a schema can hold the \<open>Forward\<close> that is later bound to that schema.
  A \<open>Call\<close> function returns a value, or returns or raises an exception.
  A converter is a callable that returns a value for the value it is given. The names
  of keys are strings; \<open>default=None\<close> is the value \<open>PNone\<close>, as in \<open>Key.__init__\<close>.
\<close>

datatype trafaret = Trafaret (kind: kind) (converters: "(pyval \<Rightarrow> pyval) list option")
and kind =
    AnyT
  | NullT
  | IntT (gte: "int option") (lte: "int option") (gt: "int option") (lt: "int option")
  | StringT (allow_blank: bool)
  | CallT (fn: "pyval \<Rightarrow> exn + pyval")
  | OrT (trafarets: "trafaret list")
  | ListT (list_trafaret: trafaret) (min_length: int) (max_length: "int option")
  | DictT (extras: "pyval list") (allow_any: bool) (ignore: "pyval list") (ignore_any: bool)
          (keys: "key list")
  | MappingT (mapping_key: trafaret) (mapping_value: trafaret)
  | ForwardT (address: nat)
and key =
    Key (key_name: string) (key_default: pyval) (optional: bool) (to_name: "string option")
        (key_trafaret: trafaret)

type_synonym store = "nat \<Rightarrow> trafaret option"

type_synonym checker = "trafaret \<Rightarrow> pyval \<Rightarrow> res"

subsection \<open>Trafaret: converter, \_convert, append\<close>

definition converter :: "pyval \<Rightarrow> pyval" where
  "converter value = value"

definition convert :: "(pyval \<Rightarrow> pyval) list option \<Rightarrow> pyval \<Rightarrow> pyval" where
  "convert cs value =
     foldl (\<lambda>val c. c val) value (case cs of None \<Rightarrow> [converter] | Some l \<Rightarrow> l)"

definition append :: "(pyval \<Rightarrow> pyval) \<Rightarrow> trafaret \<Rightarrow> trafaret" where
  "append c t =
     (case converters t of
        Some l \<Rightarrow> Trafaret (kind t) (Some (l @ [c]))
      | None \<Rightarrow> Trafaret (kind t) (Some [c]))"

subsection \<open>Null, Int, String, Call\<close>

definition Null_check :: "pyval \<Rightarrow> exn + unit" where
  "Null_check value =
     (if value \<noteq> PNone then failure ''value should be None'' else Inr ())"

definition Int_converter :: "pyval \<Rightarrow> exn + int" where
  "Int_converter val =
     (case val of
        PStr s \<Rightarrow>
          (case int_of_str s of
             Some i \<Rightarrow> Inr i
           | None \<Rightarrow> failure ''value can't be converted to int'')
      | _ \<Rightarrow> failure ''value is not int'')"

definition Int_bounds :: "kind \<Rightarrow> int \<Rightarrow> res" where
  "Int_bounds k value =
     (if gte k \<noteq> None \<and> value < the (gte k)
        then failure (''value is less than '' @ str_int (the (gte k)))
      else if lte k \<noteq> None \<and> value > the (lte k)
        then failure (''value is greater than '' @ str_int (the (lte k)))
      else if lt k \<noteq> None \<and> value \<ge> the (lt k)
        then failure (''value should be less than '' @ str_int (the (lt k)))
      else if gt k \<noteq> None \<and> value \<le> the (gt k)
        then failure (''value should be greater than '' @ str_int (the (gt k)))
      else Inr (PInt value))"

definition Int_check_val :: "kind \<Rightarrow> pyval \<Rightarrow> res" where
  "Int_check_val k val =
     (case val of
        PInt i \<Rightarrow> Int_bounds k i
      | _ \<Rightarrow> (case Int_converter val of Inl e \<Rightarrow> Inl e | Inr i \<Rightarrow> Int_bounds k i))"

definition String_check_val :: "kind \<Rightarrow> pyval \<Rightarrow> res" where
  "String_check_val k value =
     (case value of
        PStr s \<Rightarrow>
          if \<not> allow_blank k \<and> length s = 0 then failure ''blank value is not allowed''
          else Inr value
      | _ \<Rightarrow> failure ''value is not string'')"

definition Call_check_val :: "kind \<Rightarrow> pyval \<Rightarrow> res" where
  "Call_check_val k value = fn k value"

subsection \<open>catch\_error\<close>

text \<open>
  \<open>catch_error\<close> returns what \<open>checker.check\<close> returns, or the \<open>DataError\<close> it raised;
  any other exception goes on to the caller. The same shape stands for a
  \<open>try: ... except DataError\<close> block around one \<open>check\<close> call.
\<close>

definition catch_error :: "checker \<Rightarrow> trafaret \<Rightarrow> pyval \<Rightarrow> exn + (dataerror + pyval)" where
  "catch_error chk checker a =
     (case chk checker a of
        Inr r \<Rightarrow> Inr (Inr r)
      | Inl x \<Rightarrow> (case x of DataError error \<Rightarrow> Inr (Inl error) | _ \<Rightarrow> Inl x))"

subsection \<open>Or\<close>

fun Or_loop :: "checker \<Rightarrow> trafaret list \<Rightarrow> pyval \<Rightarrow> dataerror list \<Rightarrow> res" where
  "Or_loop chk [] value errors =
     Inl (DataError (ErrDict (map (\<lambda>(i, e). (PInt (int i), e)) (enumerate 0 errors))))"
| "Or_loop chk (trafaret # rest) value errors =
     (case catch_error chk trafaret value of
        Inl x \<Rightarrow> Inl x
      | Inr (Inr r) \<Rightarrow> Inr r
      | Inr (Inl e) \<Rightarrow> Or_loop chk rest value (errors @ [e]))"

definition Or_check_val :: "checker \<Rightarrow> kind \<Rightarrow> pyval \<Rightarrow> res" where
  "Or_check_val chk k value = Or_loop chk (trafarets k) value []"

subsection \<open>List\<close>

fun List_loop ::
  "checker \<Rightarrow> trafaret \<Rightarrow> (nat \<times> pyval) list \<Rightarrow> pyval list \<Rightarrow> (pyval \<times> dataerror) list
     \<Rightarrow> exn + (pyval list \<times> (pyval \<times> dataerror) list)" where
  "List_loop chk t [] lst errors = Inr (lst, errors)"
| "List_loop chk t ((index, item) # rest) lst errors =
     (case catch_error chk t item of
        Inl x \<Rightarrow> Inl x
      | Inr (Inr r) \<Rightarrow> List_loop chk t rest (lst @ [r]) errors
      | Inr (Inl err) \<Rightarrow>
          List_loop chk t rest lst (dict_setitem (PInt (int index)) err errors))"

definition List_check_val :: "checker \<Rightarrow> kind \<Rightarrow> pyval \<Rightarrow> res" where
  "List_check_val chk k value =
     (case value of
        PList xs \<Rightarrow>
          if int (length xs) < min_length k
            then failure (''list length is less than '' @ str_int (min_length k))
          else if max_length k \<noteq> None \<and> int (length xs) > the (max_length k)
            then failure (''list length is greater than '' @ str_int (the (max_length k)))
          else
            (case List_loop chk (list_trafaret k) (enumerate 0 xs) [] [] of
               Inl x \<Rightarrow> Inl x
             | Inr (lst, errors) \<Rightarrow>
                 if errors \<noteq> [] then Inl (DataError (ErrDict errors)) else Inr (PList lst))
      | _ \<Rightarrow> failure ''value is not list'')"

subsection \<open>Key\<close>

definition get_name :: "key \<Rightarrow> string" where
  "get_name key =
     (case to_name key of
        None \<Rightarrow> key_name key
      | Some n \<Rightarrow> if n = [] then key_name key else n)"

text \<open>
  \<open>Key.pop\<close> is a generator: the model returns the pairs it yields and the dict
  \<open>data\<close> as the \<open>pop\<close> call left it. \<open>raise StopIteration\<close> ends the generator, as
  in the Python versions the module was written for.
\<close>

definition Key_pop ::
  "checker \<Rightarrow> key \<Rightarrow> pydict \<Rightarrow> exn + ((pyval \<times> (dataerror + pyval)) list \<times> pydict)" where
  "Key_pop chk key data =
     (if dict_contains (PStr (key_name key)) data \<or> key_default key \<noteq> PNone then
        (case dict_pop (PStr (key_name key)) (key_default key) data of
           (a, data') \<Rightarrow>
             (case catch_error chk (key_trafaret key) a of
                Inl x \<Rightarrow> Inl x
              | Inr r \<Rightarrow> Inr ([(PStr (get_name key), r)], data')))
      else if \<not> optional key then
        Inr ([(PStr (key_name key), Inl (ErrMsg ''is required''))], data)
      else Inr ([], data))"

definition make_optional :: "key \<Rightarrow> key" where
  "make_optional key = Key (key_name key) PNone True (to_name key) (key_trafaret key)"

subsection \<open>Dict\<close>

text \<open>The local variables of \<open>Dict._check_val\<close>.\<close>

record frame =
  fr_data :: pydict
  fr_collect :: pydict
  fr_errors :: "(pyval \<times> dataerror) list"

definition Dict_store :: "frame \<Rightarrow> pyval \<times> (dataerror + pyval) \<Rightarrow> frame" where
  "Dict_store f kv =
     (case kv of
        (k, Inl v) \<Rightarrow> f\<lparr>fr_errors := dict_setitem k v (fr_errors f)\<rparr>
      | (k, Inr v) \<Rightarrow> f\<lparr>fr_collect := dict_setitem k v (fr_collect f)\<rparr>)"

fun Dict_keys_loop :: "checker \<Rightarrow> key list \<Rightarrow> frame \<Rightarrow> exn + frame" where
  "Dict_keys_loop chk [] f = Inr f"
| "Dict_keys_loop chk (key # rest) f =
     (case Key_pop chk key (fr_data f) of
        Inl x \<Rightarrow> Inl x
      | Inr (yielded, data') \<Rightarrow>
          Dict_keys_loop chk rest (foldl Dict_store (f\<lparr>fr_data := data'\<rparr>) yielded))"

definition Dict_extra :: "kind \<Rightarrow> frame \<Rightarrow> pyval \<Rightarrow> frame" where
  "Dict_extra k f key =
     (if key \<in> set (ignore k) then f
      else if \<not> allow_any k \<and> key \<notin> set (extras k) then
        f\<lparr>fr_errors := dict_setitem key (ErrMsg (py_str key @ '' is not allowed key'')) (fr_errors f)\<rparr>
      else f\<lparr>fr_collect := dict_setitem key (PDict (fr_data f)) (fr_collect f)\<rparr>)"

definition Dict_check_val :: "checker \<Rightarrow> kind \<Rightarrow> pyval \<Rightarrow> res" where
  "Dict_check_val chk k value =
     (case value of
        PDict d \<Rightarrow>
          (case Dict_keys_loop chk (keys k) \<lparr>fr_data = d, fr_collect = [], fr_errors = []\<rparr> of
             Inl x \<Rightarrow> Inl x
           | Inr f1 \<Rightarrow>
               (let f2 = (if \<not> ignore_any k
                          then foldl (Dict_extra k) f1 (map fst (fr_data f1)) else f1)
                in if fr_errors f2 \<noteq> [] then Inl (DataError (ErrDict (fr_errors f2)))
                   else Inr (PDict (fr_collect f2))))
      | _ \<Rightarrow> failure ''value is not dict'')"

definition allow_extra :: "pyval list \<Rightarrow> kind \<Rightarrow> kind" where
  "allow_extra names k =
     foldl (\<lambda>k name.
        if name = PStr ''*''
        then DictT (extras k) True (ignore k) (ignore_any k) (keys k)
        else DictT (extras k @ [name]) (allow_any k) (ignore k) (ignore_any k) (keys k))
       k names"

definition ignore_extra :: "pyval list \<Rightarrow> kind \<Rightarrow> kind" where
  "ignore_extra names k =
     foldl (\<lambda>k name.
        if name = PStr ''*''
        then DictT (extras k) (allow_any k) (ignore k) True (keys k)
        else DictT (extras k) (allow_any k) (ignore k @ [name]) (ignore_any k) (keys k))
       k names"

definition Dict_make_optional :: "pyval list \<Rightarrow> kind \<Rightarrow> kind" where
  "Dict_make_optional args k =
     DictT (extras k) (allow_any k) (ignore k) (ignore_any k)
       (map (\<lambda>key. if PStr (key_name key) \<in> set args \<or> PStr ''*'' \<in> set args
                   then make_optional key else key) (keys k))"

subsection \<open>Mapping\<close>

fun Mapping_loop ::
  "checker \<Rightarrow> kind \<Rightarrow> pydict \<Rightarrow> pydict \<Rightarrow> (pyval \<times> dataerror) list
     \<Rightarrow> exn + (pydict \<times> (pyval \<times> dataerror) list)" where
  "Mapping_loop chk k [] checked_mapping errors = Inr (checked_mapping, errors)"
| "Mapping_loop chk k ((key, value) # rest) checked_mapping errors =
     (case catch_error chk (mapping_key k) key of
        Inl x \<Rightarrow> Inl x
      | Inr rk \<Rightarrow>
     (case catch_error chk (mapping_value k) value of
        Inl x \<Rightarrow> Inl x
      | Inr rv \<Rightarrow>
     (let pair_errors =
            (case rk of Inl err \<Rightarrow> [(PStr ''key'', err)] | Inr _ \<Rightarrow> [])
          @ (case rv of Inl err \<Rightarrow> [(PStr ''value'', err)] | Inr _ \<Rightarrow> [])
      in case (rk, rv) of
           (Inr checked_key, Inr checked_value) \<Rightarrow>
             if hashable checked_key
             then Mapping_loop chk k rest
                    (dict_setitem checked_key checked_value checked_mapping) errors
             else Inl (TypeError ''unhashable type'')
         | _ \<Rightarrow>
             Mapping_loop chk k rest checked_mapping
               (dict_setitem key (ErrDict pair_errors) errors))))"

definition Mapping_check_val :: "checker \<Rightarrow> kind \<Rightarrow> pyval \<Rightarrow> res" where
  "Mapping_check_val chk k mapping =
     (case mapping of
        PDict d \<Rightarrow>
          (case Mapping_loop chk k d [] [] of
             Inl x \<Rightarrow> Inl x
           | Inr (checked_mapping, errors) \<Rightarrow>
               if errors \<noteq> [] then Inl (DataError (ErrDict errors))
               else Inr (PDict checked_mapping))
      | _ \<Rightarrow> Inl (AttributeError ''items''))"

subsection \<open>Forward\<close>

definition provide :: "store \<Rightarrow> nat \<Rightarrow> trafaret \<Rightarrow> exn + store" where
  "provide env a trafaret =
     (if env a \<noteq> None then Inl (RuntimeError ''trafaret for Forward is already specified'')
      else Inr (env(a := Some trafaret)))"

definition Forward_check_val :: "checker \<Rightarrow> store \<Rightarrow> kind \<Rightarrow> pyval \<Rightarrow> res" where
  "Forward_check_val chk env k value =
     (case env (address k) of
        None \<Rightarrow> Inl (AttributeError ''check'')
      | Some trafaret \<Rightarrow> chk trafaret value)"

subsection \<open>Trafaret.check\<close>

text \<open>
  \<open>Any\<close> and \<open>Null\<close> define \<open>_check\<close>, the other classes \<open>_check_val\<close>. Every call of
  \<open>check\<close> takes one level of the call stack; with none left Python raises
  \<open>RecursionError\<close>. The first argument of \<open>check\<close> is the number of levels left.
\<close>

fun has_check :: "kind \<Rightarrow> bool" where
  "has_check AnyT = True"
| "has_check NullT = True"
| "has_check k = False"

definition check_unit :: "kind \<Rightarrow> pyval \<Rightarrow> exn + unit" where
  "check_unit k value = (case k of NullT \<Rightarrow> Null_check value | _ \<Rightarrow> Inr ())"

definition check_val :: "checker \<Rightarrow> store \<Rightarrow> kind \<Rightarrow> pyval \<Rightarrow> res" where
  "check_val chk env k value =
     (case k of
        IntT a b c d \<Rightarrow> Int_check_val k value
      | StringT b \<Rightarrow> String_check_val k value
      | CallT f \<Rightarrow> Call_check_val k value
      | OrT ts \<Rightarrow> Or_check_val chk k value
      | ListT t mn mx \<Rightarrow> List_check_val chk k value
      | DictT ex aa ig ia ks \<Rightarrow> Dict_check_val chk k value
      | MappingT tk tv \<Rightarrow> Mapping_check_val chk k value
      | ForwardT a \<Rightarrow> Forward_check_val chk env k value
      | _ \<Rightarrow> Inr value)"

fun check :: "nat \<Rightarrow> store \<Rightarrow> trafaret \<Rightarrow> pyval \<Rightarrow> res" where
  "check 0 env t value = Inl RecursionError"
| "check (Suc n) env t value =
     (if has_check (kind t) then
        (case check_unit (kind t) value of
           Inl x \<Rightarrow> Inl x
         | Inr u \<Rightarrow> Inr (convert (converters t) value))
      else
        (case check_val (check n env) env (kind t) value of
           Inl x \<Rightarrow> Inl x
         | Inr r \<Rightarrow> Inr (convert (converters t) r)))"

section \<open>The same code on objects\<close>

text \<open>
  In Python a value is an object, and \<open>dict.pop\<close> and \<open>d[k] = v\<close> change an object in
  place. The dicts \<open>collect\<close>, \<open>errors\<close>, \<open>pair_errors\<close>, \<open>checked_mapping\<close> and the list
  \<open>lst\<close> are made by the call that fills them; the dict \<open>data\<close> of \<open>Dict._check_val\<close>
  is \<open>copy.copy(value)\<close>, and \<open>Key.pop\<close> pops from it. This section runs \<open>check\<close> on a
  heap, to tell the caller's objects from that copy.

  A heap is a list of cells, an address is an index into it. A \<open>Tree\<close> cell holds a
  value the caller built (decoded input: a tree, no object in two places); the
  object at a path in it is reached by going into the entry (of a dict) or element
  (of a list) at each index of the path. A \<open>Copy\<close> cell holds a dict made by
  \<open>copy.copy\<close>: a shallow copy, whose values are the very objects of the original. A
  reference is an object of some \<open>Tree\<close> cell, or a value that no code here writes to
  (a key's default, a key of a dict). \<open>check\<close> returns its result by value.

  The writes of the source on the way of a \<open>check\<close> are \<open>errors.append\<close>, \<open>lst.append\<close>,
  \<open>collect[k] = v\<close>, \<open>errors[k] = v\<close>, \<open>checked_mapping[k] = v\<close> and \<open>pair_errors[k] = v\<close>,
  all on a list or dict that the same call made empty, and \<open>data.pop\<close>. No attribute of
  a trafaret or key is assigned there (those assignments are in \<open>__init__\<close>, \<open>append\<close>,
  \<open>__lshift__\<close>, \<open>__rshift__\<close>, \<open>set_trafaret\<close>, \<open>make_optional\<close>, \<open>allow_extra\<close>,
  \<open>ignore_extra\<close>, \<open>provide\<close> and \<open>__repr__\<close>), so the schema is an argument here as it is in \<open>check\<close>.
\<close>

type_synonym path = "nat list"

datatype ref = Loc nat path | Val pyval

datatype cell = Tree pyval | Copy "(pyval \<times> ref) list"

type_synonym heap = "cell list"

fun sub_object :: "pyval \<Rightarrow> nat \<Rightarrow> pyval" where
  "sub_object (PDict d) i = (if i < length d then snd (d ! i) else PNone)"
| "sub_object (PList xs) i = (if i < length xs then xs ! i else PNone)"
| "sub_object v i = PNone"

fun object_at :: "pyval \<Rightarrow> path \<Rightarrow> pyval" where
  "object_at v [] = v"
| "object_at v (i # p) = object_at (sub_object v i) p"

fun value_of :: "heap \<Rightarrow> ref \<Rightarrow> pyval" where
  "value_of h (Val v) = v"
| "value_of h (Loc a p) =
     (if a < length h
      then (case h ! a of Tree v \<Rightarrow> object_at v p | Copy es \<Rightarrow> PNone)
      else PNone)"

fun child_ref :: "ref \<Rightarrow> nat \<Rightarrow> ref" where
  "child_ref (Loc a p) i = Loc a (p @ [i])"
| "child_ref (Val v) i = Val (sub_object v i)"

text \<open>The entries of a dict object and the elements of a list object, as references.\<close>

definition items :: "ref \<Rightarrow> pydict \<Rightarrow> (pyval \<times> ref) list" where
  "items value d = map (\<lambda>i. (fst (d ! i), child_ref value i)) [0..<length d]"

definition elements :: "ref \<Rightarrow> pyval list \<Rightarrow> (nat \<times> ref) list" where
  "elements value xs = map (\<lambda>i. (i, child_ref value i)) [0..<length xs]"

text \<open>The entries of the copy at an address, and the dict it is, by value.\<close>

definition entries :: "heap \<Rightarrow> nat \<Rightarrow> (pyval \<times> ref) list" where
  "entries h a =
     (if a < length h then (case h ! a of Copy es \<Rightarrow> es | Tree v \<Rightarrow> []) else [])"

definition snapshot :: "heap \<Rightarrow> nat \<Rightarrow> pydict" where
  "snapshot h a = map (\<lambda>(k, r). (k, value_of h r)) (entries h a)"

type_synonym hchecker = "trafaret \<Rightarrow> ref \<Rightarrow> heap \<Rightarrow> res \<times> heap"

definition catch_error_h ::
  "hchecker \<Rightarrow> trafaret \<Rightarrow> ref \<Rightarrow> heap \<Rightarrow> (exn + (dataerror + pyval)) \<times> heap" where
  "catch_error_h chk checker a h =
     (case chk checker a h of
        (Inr r, h') \<Rightarrow> (Inr (Inr r), h')
      | (Inl x, h') \<Rightarrow> (case x of DataError error \<Rightarrow> (Inr (Inl error), h') | _ \<Rightarrow> (Inl x, h')))"

fun Or_loop_h ::
  "hchecker \<Rightarrow> trafaret list \<Rightarrow> ref \<Rightarrow> dataerror list \<Rightarrow> heap \<Rightarrow> res \<times> heap" where
  "Or_loop_h chk [] value errors h =
     (Inl (DataError (ErrDict (map (\<lambda>(i, e). (PInt (int i), e)) (enumerate 0 errors)))), h)"
| "Or_loop_h chk (trafaret # rest) value errors h =
     (case catch_error_h chk trafaret value h of
        (Inl x, h') \<Rightarrow> (Inl x, h')
      | (Inr (Inr r), h') \<Rightarrow> (Inr r, h')
      | (Inr (Inl e), h') \<Rightarrow> Or_loop_h chk rest value (errors @ [e]) h')"

definition Or_check_val_h :: "hchecker \<Rightarrow> kind \<Rightarrow> ref \<Rightarrow> heap \<Rightarrow> res \<times> heap" where
  "Or_check_val_h chk k value h = Or_loop_h chk (trafarets k) value [] h"

fun List_loop_h ::
  "hchecker \<Rightarrow> trafaret \<Rightarrow> (nat \<times> ref) list \<Rightarrow> pyval list \<Rightarrow> (pyval \<times> dataerror) list \<Rightarrow> heap
     \<Rightarrow> (exn + (pyval list \<times> (pyval \<times> dataerror) list)) \<times> heap" where
  "List_loop_h chk t [] lst errors h = (Inr (lst, errors), h)"
| "List_loop_h chk t ((index, item) # rest) lst errors h =
     (case catch_error_h chk t item h of
        (Inl x, h') \<Rightarrow> (Inl x, h')
      | (Inr (Inr r), h') \<Rightarrow> List_loop_h chk t rest (lst @ [r]) errors h'
      | (Inr (Inl err), h') \<Rightarrow>
          List_loop_h chk t rest lst (dict_setitem (PInt (int index)) err errors) h')"

definition List_check_val_h :: "hchecker \<Rightarrow> kind \<Rightarrow> ref \<Rightarrow> heap \<Rightarrow> res \<times> heap" where
  "List_check_val_h chk k value h =
     (case value_of h value of
        PList xs \<Rightarrow>
          if int (length xs) < min_length k
            then (failure (''list length is less than '' @ str_int (min_length k)), h)
          else if max_length k \<noteq> None \<and> int (length xs) > the (max_length k)
            then (failure (''list length is greater than '' @ str_int (the (max_length k))), h)
          else
            (case List_loop_h chk (list_trafaret k) (elements value xs) [] [] h of
               (Inl x, h') \<Rightarrow> (Inl x, h')
             | (Inr (lst, errors), h') \<Rightarrow>
                 (if errors \<noteq> [] then Inl (DataError (ErrDict errors)) else Inr (PList lst), h'))
      | _ \<Rightarrow> (failure ''value is not list'', h))"

text \<open>
  \<open>Key.pop\<close>: \<open>data\<close> is the address of the copy. \<open>data.pop(self.name, self.default)\<close>
  takes the entry out of the object at that address.
\<close>

definition Key_pop_h ::
  "hchecker \<Rightarrow> key \<Rightarrow> nat \<Rightarrow> heap \<Rightarrow> (exn + (pyval \<times> (dataerror + pyval)) list) \<times> heap" where
  "Key_pop_h chk key data h =
     (if dict_contains (PStr (key_name key)) (entries h data) \<or> key_default key \<noteq> PNone then
        (case dict_pop (PStr (key_name key)) (Val (key_default key)) (entries h data) of
           (a, es') \<Rightarrow>
             (case catch_error_h chk (key_trafaret key) a (h[data := Copy es']) of
                (Inl x, h') \<Rightarrow> (Inl x, h')
              | (Inr r, h') \<Rightarrow> (Inr [(PStr (get_name key), r)], h')))
      else if \<not> optional key then
        (Inr [(PStr (key_name key), Inl (ErrMsg ''is required''))], h)
      else (Inr [], h))"

record hframe =
  hf_data :: nat
  hf_collect :: pydict
  hf_errors :: "(pyval \<times> dataerror) list"

definition Dict_store_h :: "hframe \<Rightarrow> pyval \<times> (dataerror + pyval) \<Rightarrow> hframe" where
  "Dict_store_h f kv =
     (case kv of
        (k, Inl v) \<Rightarrow> f\<lparr>hf_errors := dict_setitem k v (hf_errors f)\<rparr>
      | (k, Inr v) \<Rightarrow> f\<lparr>hf_collect := dict_setitem k v (hf_collect f)\<rparr>)"

fun Dict_keys_loop_h ::
  "hchecker \<Rightarrow> key list \<Rightarrow> hframe \<Rightarrow> heap \<Rightarrow> (exn + hframe) \<times> heap" where
  "Dict_keys_loop_h chk [] f h = (Inr f, h)"
| "Dict_keys_loop_h chk (key # rest) f h =
     (case Key_pop_h chk key (hf_data f) h of
        (Inl x, h') \<Rightarrow> (Inl x, h')
      | (Inr yielded, h') \<Rightarrow> Dict_keys_loop_h chk rest (foldl Dict_store_h f yielded) h')"

definition Dict_extra_h :: "kind \<Rightarrow> heap \<Rightarrow> hframe \<Rightarrow> pyval \<Rightarrow> hframe" where
  "Dict_extra_h k h f key =
     (if key \<in> set (ignore k) then f
      else if \<not> allow_any k \<and> key \<notin> set (extras k) then
        f\<lparr>hf_errors :=
            dict_setitem key (ErrMsg (py_str key @ '' is not allowed key'')) (hf_errors f)\<rparr>
      else f\<lparr>hf_collect := dict_setitem key (PDict (snapshot h (hf_data f))) (hf_collect f)\<rparr>)"

text \<open>\<open>data = copy.copy(value)\<close> makes a new object: a cell at the end of the heap.\<close>

definition Dict_check_val_h :: "hchecker \<Rightarrow> kind \<Rightarrow> ref \<Rightarrow> heap \<Rightarrow> res \<times> heap" where
  "Dict_check_val_h chk k value h =
     (case value_of h value of
        PDict d \<Rightarrow>
          (case Dict_keys_loop_h chk (keys k)
                  \<lparr>hf_data = length h, hf_collect = [], hf_errors = []\<rparr>
                  (h @ [Copy (items value d)]) of
             (Inl x, h1) \<Rightarrow> (Inl x, h1)
           | (Inr f1, h1) \<Rightarrow>
               (let f2 = (if \<not> ignore_any k
                          then foldl (Dict_extra_h k h1) f1 (map fst (entries h1 (hf_data f1)))
                          else f1)
                in (if hf_errors f2 \<noteq> [] then Inl (DataError (ErrDict (hf_errors f2)))
                    else Inr (PDict (hf_collect f2)), h1)))
      | _ \<Rightarrow> (failure ''value is not dict'', h))"

fun Mapping_loop_h ::
  "hchecker \<Rightarrow> kind \<Rightarrow> (pyval \<times> ref) list \<Rightarrow> pydict \<Rightarrow> (pyval \<times> dataerror) list \<Rightarrow> heap
     \<Rightarrow> (exn + (pydict \<times> (pyval \<times> dataerror) list)) \<times> heap" where
  "Mapping_loop_h chk k [] checked_mapping errors h = (Inr (checked_mapping, errors), h)"
| "Mapping_loop_h chk k ((key, value) # rest) checked_mapping errors h =
     (case catch_error_h chk (mapping_key k) (Val key) h of
        (Inl x, h1) \<Rightarrow> (Inl x, h1)
      | (Inr rk, h1) \<Rightarrow>
     (case catch_error_h chk (mapping_value k) value h1 of
        (Inl x, h2) \<Rightarrow> (Inl x, h2)
      | (Inr rv, h2) \<Rightarrow>
     (let pair_errors =
            (case rk of Inl err \<Rightarrow> [(PStr ''key'', err)] | Inr _ \<Rightarrow> [])
          @ (case rv of Inl err \<Rightarrow> [(PStr ''value'', err)] | Inr _ \<Rightarrow> [])
      in case (rk, rv) of
           (Inr checked_key, Inr checked_value) \<Rightarrow>
             if hashable checked_key
             then Mapping_loop_h chk k rest
                    (dict_setitem checked_key checked_value checked_mapping) errors h2
             else (Inl (TypeError ''unhashable type''), h2)
         | _ \<Rightarrow>
             Mapping_loop_h chk k rest checked_mapping
               (dict_setitem key (ErrDict pair_errors) errors) h2)))"

definition Mapping_check_val_h :: "hchecker \<Rightarrow> kind \<Rightarrow> ref \<Rightarrow> heap \<Rightarrow> res \<times> heap" where
  "Mapping_check_val_h chk k mapping h =
     (case value_of h mapping of
        PDict d \<Rightarrow>
          (case Mapping_loop_h chk k (items mapping d) [] [] h of
             (Inl x, h') \<Rightarrow> (Inl x, h')
           | (Inr (checked_mapping, errors), h') \<Rightarrow>
               (if errors \<noteq> [] then Inl (DataError (ErrDict errors))
                else Inr (PDict checked_mapping), h'))
      | _ \<Rightarrow> (Inl (AttributeError ''items''), h))"

definition Forward_check_val_h :: "hchecker \<Rightarrow> store \<Rightarrow> kind \<Rightarrow> ref \<Rightarrow> heap \<Rightarrow> res \<times> heap" where
  "Forward_check_val_h chk env k value h =
     (case env (address k) of
        None \<Rightarrow> (Inl (AttributeError ''check''), h)
      | Some trafaret \<Rightarrow> chk trafaret value h)"

definition check_val_h :: "hchecker \<Rightarrow> store \<Rightarrow> kind \<Rightarrow> ref \<Rightarrow> heap \<Rightarrow> res \<times> heap" where
  "check_val_h chk env k value h =
     (case k of
        IntT a b c d \<Rightarrow> (Int_check_val k (value_of h value), h)
      | StringT b \<Rightarrow> (String_check_val k (value_of h value), h)
      | CallT f \<Rightarrow> (Call_check_val k (value_of h value), h)
      | OrT ts \<Rightarrow> Or_check_val_h chk k value h
      | ListT t mn mx \<Rightarrow> List_check_val_h chk k value h
      | DictT ex aa ig ia ks \<Rightarrow> Dict_check_val_h chk k value h
      | MappingT tk tv \<Rightarrow> Mapping_check_val_h chk k value h
      | ForwardT a \<Rightarrow> Forward_check_val_h chk env k value h
      | _ \<Rightarrow> (Inr (value_of h value), h))"

fun check_h :: "nat \<Rightarrow> store \<Rightarrow> trafaret \<Rightarrow> ref \<Rightarrow> heap \<Rightarrow> res \<times> heap" where
  "check_h 0 env t value h = (Inl RecursionError, h)"
| "check_h (Suc n) env t value h =
     (if has_check (kind t) then
        (case check_unit (kind t) (value_of h value) of
           Inl x \<Rightarrow> (Inl x, h)
         | Inr u \<Rightarrow> (Inr (convert (converters t) (value_of h value)), h))
      else
        (case check_val_h (check_h n env) env (kind t) value h of
           (Inl x, h') \<Rightarrow> (Inl x, h')
         | (Inr r, h') \<Rightarrow> (Inr (convert (converters t) r), h')))"

section \<open>Notions the properties are stated with\<close>

text \<open>
  The converters appended to a trafaret so far, \<open>t >> c1 >> ... >> cn\<close>, and the
  validation logic of a trafaret on its own: what \<open>check\<close> does before \<open>_convert\<close>,
  with the value it hands to \<open>_convert\<close>.
\<close>

definition appended :: "trafaret \<Rightarrow> (pyval \<Rightarrow> pyval) list" where
  "appended t = (case converters t of None \<Rightarrow> [] | Some l \<Rightarrow> l)"

definition append_all :: "(pyval \<Rightarrow> pyval) list \<Rightarrow> trafaret \<Rightarrow> trafaret" where
  "append_all cs t = foldl (\<lambda>t c. append c t) t cs"

definition own_validation :: "nat \<Rightarrow> store \<Rightarrow> trafaret \<Rightarrow> pyval \<Rightarrow> res" where
  "own_validation n env t value =
     (if has_check (kind t) then
        (case check_unit (kind t) value of Inl x \<Rightarrow> Inl x | Inr u \<Rightarrow> Inr value)
      else check_val (check n env) env (kind t) value)"

text \<open>
  What a call of \<open>check\<close> did: it returned a value, raised a \<open>DataError\<close>, or raised
  something else (a crash, which no \<open>except DataError\<close> catches).
\<close>

fun is_crash :: "exn + 'a \<Rightarrow> bool" where
  "is_crash (Inr v) = False"
| "is_crash (Inl (DataError e)) = False"
| "is_crash (Inl x) = True"

fun is_DataError :: "exn + 'a \<Rightarrow> bool" where
  "is_DataError (Inl (DataError e)) = True"
| "is_DataError r = False"

fun the_DataError :: "exn + 'a \<Rightarrow> dataerror" where
  "the_DataError (Inl (DataError e)) = e"
| "the_DataError r = ErrMsg []"

fun the_value :: "exn + pyval \<Rightarrow> pyval" where
  "the_value (Inr v) = v"
| "the_value r = PNone"

text \<open>
  For a declared key and a dict \<open>d\<close>: whether \<open>Key.pop\<close> on \<open>d\<close> calls the key's trafaret
  (the name is in \<open>d\<close>, or the default is not \<open>None\<close>), and the value it hands to it.
  \<open>names\<close> are the source names of the declared keys. \<open>key_step\<close> is one round of the
  loop over the declared keys when the trafaret does not crash, and \<open>key_err\<close> the entry
  that round can put into \<open>errors\<close>.
\<close>

definition key_called :: "pydict \<Rightarrow> key \<Rightarrow> bool" where
  "key_called d key = (dict_contains (PStr (key_name key)) d \<or> key_default key \<noteq> PNone)"

definition key_value :: "pydict \<Rightarrow> key \<Rightarrow> pyval" where
  "key_value d key = fst (dict_pop (PStr (key_name key)) (key_default key) d)"

definition names :: "key list \<Rightarrow> pyval set" where
  "names ks = (\<lambda>key. PStr (key_name key)) ` set ks"

definition key_step :: "checker \<Rightarrow> key \<Rightarrow> frame \<Rightarrow> frame" where
  "key_step chk key f =
     (if key_called (fr_data f) key then
        (if is_DataError (chk (key_trafaret key) (key_value (fr_data f) key))
         then f\<lparr>fr_data := dict_delitem (PStr (key_name key)) (fr_data f),
                fr_errors := dict_setitem (PStr (get_name key))
                   (the_DataError (chk (key_trafaret key) (key_value (fr_data f) key)))
                   (fr_errors f)\<rparr>
         else f\<lparr>fr_data := dict_delitem (PStr (key_name key)) (fr_data f),
                fr_collect := dict_setitem (PStr (get_name key))
                   (the_value (chk (key_trafaret key) (key_value (fr_data f) key)))
                   (fr_collect f)\<rparr>)
      else if \<not> optional key then
        f\<lparr>fr_data := dict_delitem (PStr (key_name key)) (fr_data f),
          fr_errors := dict_setitem (PStr (key_name key)) (ErrMsg ''is required'') (fr_errors f)\<rparr>
      else f\<lparr>fr_data := dict_delitem (PStr (key_name key)) (fr_data f)\<rparr>)"

definition key_err :: "checker \<Rightarrow> pydict \<Rightarrow> key \<Rightarrow> pyval \<Rightarrow> dataerror \<Rightarrow> bool" where
  "key_err chk d key name e =
     ((name = PStr (key_name key) \<and> \<not> key_called d key \<and> \<not> optional key
         \<and> e = ErrMsg ''is required'')
      \<or> (name = PStr (get_name key) \<and> key_called d key
         \<and> chk (key_trafaret key) (key_value d key) = Inl (DataError e)))"

text \<open>
  For an entry of a dict given to \<open>Mapping\<close>, with \<open>ck\<close> and \<open>cv\<close> the checks of the key
  and of the value trafaret: whether the entry fails, the entry it then gets in the
  error dict (\<open>pair_errors\<close> under the input key), and its checked key and value.
  \<open>dict_of\<close> is the dict built by storing pairs one after the other.
\<close>

definition pair_errors :: "res \<Rightarrow> res \<Rightarrow> (pyval \<times> dataerror) list" where
  "pair_errors rk rv =
     (if is_DataError rk then [(PStr ''key'', the_DataError rk)] else [])
     @ (if is_DataError rv then [(PStr ''value'', the_DataError rv)] else [])"

definition entry_fails :: "(pyval \<Rightarrow> res) \<Rightarrow> (pyval \<Rightarrow> res) \<Rightarrow> pyval \<times> pyval \<Rightarrow> bool" where
  "entry_fails ck cv entry = (is_DataError (ck (fst entry)) \<or> is_DataError (cv (snd entry)))"

definition entry_error ::
  "(pyval \<Rightarrow> res) \<Rightarrow> (pyval \<Rightarrow> res) \<Rightarrow> pyval \<times> pyval \<Rightarrow> pyval \<times> dataerror" where
  "entry_error ck cv entry = (fst entry, ErrDict (pair_errors (ck (fst entry)) (cv (snd entry))))"

definition entry_checked ::
  "(pyval \<Rightarrow> res) \<Rightarrow> (pyval \<Rightarrow> res) \<Rightarrow> pyval \<times> pyval \<Rightarrow> pyval \<times> pyval" where
  "entry_checked ck cv entry = (the_value (ck (fst entry)), the_value (cv (snd entry)))"

definition dict_of :: "('k \<times> 'v) list \<Rightarrow> ('k \<times> 'v) list" where
  "dict_of ps = foldl (\<lambda>m p. dict_setitem (fst p) (snd p) m) [] ps"

text \<open>
  Two ways of checking the children agree when the second gives the same result as
  the first wherever the first did not run out of stack.
\<close>

definition agree :: "checker \<Rightarrow> checker \<Rightarrow> bool" where
  "agree chk chk' = (\<forall>t v. chk t v \<noteq> Inl RecursionError \<longrightarrow> chk' t v = chk t v)"

text \<open>
  A heap \<open>h'\<close> extends a heap \<open>h\<close> when it holds the objects of \<open>h\<close>, unchanged and at
  their addresses, and after them copies only.
\<close>

fun is_Copy :: "cell \<Rightarrow> bool" where
  "is_Copy (Copy es) = True"
| "is_Copy (Tree v) = False"

definition extends :: "heap \<Rightarrow> heap \<Rightarrow> bool" where
  "extends h h' =
     (length h \<le> length h' \<and> take (length h) h' = h
      \<and> list_all is_Copy (drop (length h) h'))"

text \<open>
  A way of checking the children on a heap is good for one on values when it leaves
  an extension of the heap it is given and its result is that of the other on the
  value of the argument.
\<close>

definition good :: "hchecker \<Rightarrow> checker \<Rightarrow> bool" where
  "good chk_h chk =
     (\<forall>t r h. extends h (snd (chk_h t r h)) \<and> fst (chk_h t r h) = chk t (value_of h r))"

text \<open>The entries of a copy by value, and the frame of the keys loop with them as \<open>data\<close>.\<close>

definition by_value :: "heap \<Rightarrow> (pyval \<times> ref) list \<Rightarrow> pydict" where
  "by_value h es = map (\<lambda>(k, r). (k, value_of h r)) es"

definition pure_frame :: "heap \<Rightarrow> (pyval \<times> ref) list \<Rightarrow> hframe \<Rightarrow> frame" where
  "pure_frame h es f =
     \<lparr>fr_data = by_value h es, fr_collect = hf_collect f, fr_errors = hf_errors f\<rparr>"

section \<open>Evaluation rules\<close>

lemma convert_None [simp]: "convert None value = value"
  by (simp add: convert_def converter_def)

lemma convert_Some [simp]: "convert (Some cs) value = foldl (\<lambda>val c. c val) value cs"
  by (simp add: convert_def)

lemmas leaf_defs =
  check_val_def check_unit_def Null_check_def Int_check_val_def Int_bounds_def Int_converter_def
  String_check_val_def Call_check_val_def failure_def catch_error_def

lemmas dict_defs =
  Dict_check_val_def Key_pop_def Dict_store_def Dict_extra_def get_name_def
  dict_contains_def dict_pop_def dict_delitem_def

lemma catch_error_Inr [simp]: "chk t v = Inr r \<Longrightarrow> catch_error chk t v = Inr (Inr r)"
  by (simp add: catch_error_def)

lemma catch_error_DataError [simp]:
  "chk t v = Inl (DataError e) \<Longrightarrow> catch_error chk t v = Inr (Inl e)"
  by (simp add: catch_error_def)

lemma catch_error_eq_Inr_Inr [simp]: "catch_error chk t v = Inr (Inr r) \<longleftrightarrow> chk t v = Inr r"
  by (auto simp: catch_error_def split: sum.splits exn.splits)

lemma catch_error_eq_Inr_Inl [simp]:
  "catch_error chk t v = Inr (Inl e) \<longleftrightarrow> chk t v = Inl (DataError e)"
  by (auto simp: catch_error_def split: sum.splits exn.splits)

lemma dict_setitem_fresh: "k \<notin> fst ` set d \<Longrightarrow> dict_setitem k v d = d @ [(k, v)]"
  by (induction d) auto

lemma map_of_dict_setitem [simp]: "map_of (dict_setitem k v d) = (map_of d)(k \<mapsto> v)"
  by (induction d) (auto simp: fun_eq_iff)

lemma set_dict_setitem_subset: "set (dict_setitem k v d) \<subseteq> insert (k, v) (set d)"
  by (induction d) auto

lemma dict_setitem_not_Nil [simp]: "dict_setitem k v d \<noteq> []"
  by (cases d) auto

lemma catch_error_cases:
  "catch_error chk t v =
     (if is_crash (chk t v) then Inl (case chk t v of Inl x \<Rightarrow> x)
      else if is_DataError (chk t v) then Inr (Inl (the_DataError (chk t v)))
      else Inr (Inr (the_value (chk t v))))"
  by (cases "chk t v" rule: is_crash.cases) (simp_all add: catch_error_def)

lemma dict_contains_iff: "dict_contains k d \<longleftrightarrow> k \<in> fst ` set d"
  by (simp add: dict_contains_def map_of_eq_None_iff)

lemma dict_delitem_absent: "\<not> dict_contains k d \<Longrightarrow> dict_delitem k d = d"
  by (auto simp: dict_contains_iff dict_delitem_def filter_id_conv)

lemma map_of_filter_keys:
  "map_of (filter (\<lambda>p. fst p \<notin> S) d) k = (if k \<in> S then None else map_of d k)"
  by (induction d) auto

lemma is_DataError_the: "is_DataError r \<Longrightarrow> r = Inl (DataError (the_DataError r))"
  by (cases r rule: is_DataError.cases) simp_all

lemma distinct_map_Cons_other:
  "distinct (map g (x # xs)) \<Longrightarrow> \<forall>y\<in>set xs. g y \<noteq> g x"
  by (auto simp: image_iff)

lemma foldl_dict_setitem_fresh:
  "distinct (map fst ps) \<Longrightarrow> fst ` set ps \<inter> fst ` set m = {} \<Longrightarrow>
   foldl (\<lambda>m p. dict_setitem (fst p) (snd p) m) m ps = m @ ps"
proof (induction ps arbitrary: m)
  case Nil
  then show ?case by simp
next
  case (Cons p ps)
  have f: "fst p \<notin> fst ` set m" using Cons.prems(2) by auto
  have "fst ` set ps \<inter> fst ` set (m @ [(fst p, snd p)]) = {}"
    using Cons.prems by auto
  with Cons.IH [of "m @ [(fst p, snd p)]"] Cons.prems(1) show ?case
    by (simp add: dict_setitem_fresh [OF f])
qed

lemma map_of_foldl_dict_setitem:
  "map_of (foldl (\<lambda>m p. dict_setitem (fst p) (snd p) m) m ps) = map_of (rev ps @ m)"
proof (induction ps arbitrary: m)
  case Nil
  then show ?case by simp
next
  case (Cons p ps)
  show ?case
    by (simp add: Cons.IH map_add_def fun_eq_iff split: option.splits)
qed

lemmas int_of_str_defs =
  int_of_str_def strip_def is_space_def nat_of_digits_def is_digit_def digit_val_def

lemma is_crash_Inl: "is_crash r \<Longrightarrow> \<exists>x. r = Inl x \<and> (\<forall>e. x \<noteq> DataError e)"
  by (cases r rule: is_crash.cases) simp_all

section \<open>Dict: a required key is missing\<close>

lemma Key_pop_eq:
  "Key_pop chk key data =
     (if key_called data key then
        (case catch_error chk (key_trafaret key) (key_value data key) of
           Inl x \<Rightarrow> Inl x
         | Inr r \<Rightarrow> Inr ([(PStr (get_name key), r)], dict_delitem (PStr (key_name key)) data))
      else if \<not> optional key then
        Inr ([(PStr (key_name key), Inl (ErrMsg ''is required''))],
             dict_delitem (PStr (key_name key)) data)
      else Inr ([], dict_delitem (PStr (key_name key)) data))"
proof (cases "dict_contains (PStr (key_name key)) data")
  case True
  then show ?thesis
    by (auto simp: Key_pop_def key_called_def key_value_def dict_pop_def dict_contains_def
             split: sum.splits)
next
  case False
  then have "map_of data (PStr (key_name key)) = None"
    by (simp add: dict_contains_def)
  with False show ?thesis
    by (auto simp: Key_pop_def key_called_def key_value_def dict_pop_def dict_delitem_absent
             split: sum.splits)
qed

lemma fr_data_foldl_Dict_store [simp]: "fr_data (foldl Dict_store f ys) = fr_data f"
  by (induction ys arbitrary: f) (auto simp: Dict_store_def split: sum.splits)

lemma key_called_filter:
  "PStr (key_name key) \<notin> S \<Longrightarrow>
   key_called (filter (\<lambda>p. fst p \<notin> S) d) key = key_called d key"
  by (simp add: key_called_def dict_contains_def map_of_filter_keys)

lemma key_value_filter:
  "PStr (key_name key) \<notin> S \<Longrightarrow>
   key_value (filter (\<lambda>p. fst p \<notin> S) d) key = key_value d key"
  by (simp add: key_value_def dict_pop_def map_of_filter_keys split: option.splits)

lemma dict_delitem_filter: "dict_delitem k d = filter (\<lambda>p. fst p \<notin> {k}) d"
  by (simp add: dict_delitem_def)

lemma Dict_keys_loop_Cons_no_crash:
  assumes "key_called (fr_data f) key \<longrightarrow>
             \<not> is_crash (chk (key_trafaret key) (key_value (fr_data f) key))"
  shows "Dict_keys_loop chk (key # rest) f = Dict_keys_loop chk rest (key_step chk key f)"
  using assms
  by (auto simp: Key_pop_eq key_step_def catch_error_cases Dict_store_def)

lemma fr_data_key_step [simp]:
  "fr_data (key_step chk key f) = dict_delitem (PStr (key_name key)) (fr_data f)"
  by (simp add: key_step_def)

lemma key_step_rest:
  assumes "key_name key' \<noteq> N"
  shows "key_called (dict_delitem (PStr N) d) key' = key_called d key'"
    and "key_value (dict_delitem (PStr N) d) key' = key_value d key'"
  using assms key_called_filter [of key' "{PStr N}" d] key_value_filter [of key' "{PStr N}" d]
  by (simp_all add: dict_delitem_def)

lemma Dict_keys_loop_no_crash:
  assumes "distinct (map key_name ks)"
      and "\<forall>key\<in>set ks. key_called (fr_data f) key \<longrightarrow>
             \<not> is_crash (chk (key_trafaret key) (key_value (fr_data f) key))"
  shows "Dict_keys_loop chk ks f = Inr (foldl (\<lambda>f key. key_step chk key f) f ks)"
  using assms
proof (induction ks arbitrary: f)
  case Nil
  then show ?case by simp
next
  case (Cons key rest)
  have step: "Dict_keys_loop chk (key # rest) f = Dict_keys_loop chk rest (key_step chk key f)"
    using Cons.prems(2) by (intro Dict_keys_loop_Cons_no_crash) simp
  have other: "\<forall>key'\<in>set rest. key_name key' \<noteq> key_name key"
    using Cons.prems(1) by (rule distinct_map_Cons_other)
  have "\<forall>key'\<in>set rest. key_called (fr_data (key_step chk key f)) key' \<longrightarrow>
          \<not> is_crash (chk (key_trafaret key') (key_value (fr_data (key_step chk key f)) key'))"
    using Cons.prems(2) other by (simp add: key_step_rest)
  with Cons.IH [of "key_step chk key f"] Cons.prems(1) step show ?case
    by simp
qed

lemma foldl_key_step_data:
  "fr_data (foldl (\<lambda>f key. key_step chk key f) f ks)
     = filter (\<lambda>p. fst p \<notin> names ks) (fr_data f)"
proof (induction ks arbitrary: f)
  case Nil
  then show ?case by (simp add: names_def)
next
  case (Cons key rest)
  then show ?case
    by (simp add: names_def dict_delitem_def)
qed

lemma key_step_errors:
  "set (fr_errors (key_step chk key f))
     \<subseteq> set (fr_errors f) \<union> {(n, e). key_err chk (fr_data f) key n e}"
  using set_dict_setitem_subset [of _ _ "fr_errors f"]
  by (auto simp: key_step_def key_err_def dest: is_DataError_the)

lemma foldl_key_step_errors:
  assumes "distinct (map key_name ks)"
  shows "set (fr_errors (foldl (\<lambda>f key. key_step chk key f) f ks))
           \<subseteq> set (fr_errors f) \<union> {(n, e). \<exists>key\<in>set ks. key_err chk (fr_data f) key n e}"
  using assms
proof (induction ks arbitrary: f)
  case Nil
  then show ?case by simp
next
  case (Cons key rest)
  have other: "\<forall>key'\<in>set rest. key_name key' \<noteq> key_name key"
    using Cons.prems by (rule distinct_map_Cons_other)
  then have same: "\<forall>key'\<in>set rest. \<forall>n e.
      key_err chk (fr_data (key_step chk key f)) key' n e = key_err chk (fr_data f) key' n e"
    by (simp add: key_err_def key_step_rest)
  from Cons.prems have "distinct (map key_name rest)" by simp
  from Cons.IH [OF this, of "key_step chk key f"] same key_step_errors [of chk key f]
  show ?case by auto
qed

lemma key_step_errors_other:
  "get_name key \<noteq> N \<Longrightarrow> key_name key \<noteq> N \<Longrightarrow>
   map_of (fr_errors (key_step chk key f)) (PStr N) = map_of (fr_errors f) (PStr N)"
  by (simp add: key_step_def)

lemma foldl_key_step_errors_other:
  "\<forall>key\<in>set ks. get_name key \<noteq> N \<and> key_name key \<noteq> N \<Longrightarrow>
   map_of (fr_errors (foldl (\<lambda>f key. key_step chk key f) f ks)) (PStr N)
     = map_of (fr_errors f) (PStr N)"
  by (induction ks arbitrary: f) (simp_all add: key_step_errors_other)

lemma foldl_key_step_required:
  assumes "distinct (map key_name ks)" and "key \<in> set ks"
      and "\<not> key_called (fr_data f) key" and "\<not> optional key"
      and "\<forall>key'\<in>set ks. key' \<noteq> key \<longrightarrow> get_name key' \<noteq> key_name key"
  shows "map_of (fr_errors (foldl (\<lambda>f key. key_step chk key f) f ks)) (PStr (key_name key))
           = Some (ErrMsg ''is required'')"
  using assms
proof (induction ks arbitrary: f)
  case Nil
  then show ?case by simp
next
  case (Cons k0 rest)
  have other: "\<forall>key'\<in>set rest. key_name key' \<noteq> key_name k0"
    using Cons.prems(1) by (rule distinct_map_Cons_other)
  show ?case
  proof (cases "k0 = key")
    case True
    with other Cons.prems(5)
    have "\<forall>key'\<in>set rest. get_name key' \<noteq> key_name key \<and> key_name key' \<noteq> key_name key"
      by auto
    from foldl_key_step_errors_other [OF this, of chk "key_step chk key f"]
    show ?thesis using True Cons.prems(3,4)
      by (simp add: key_step_def)
  next
    case False
    with Cons.prems(2) have in_rest: "key \<in> set rest" by simp
    with other have "key_name key \<noteq> key_name k0" by auto
    then have nc: "\<not> key_called (fr_data (key_step chk k0 f)) key"
      using Cons.prems(3) by (simp add: key_step_rest)
    from Cons.prems(1) have d: "distinct (map key_name rest)" by simp
    from Cons.IH [OF d in_rest nc Cons.prems(4)] Cons.prems(5) show ?thesis
      by simp
  qed
qed

lemma fr_data_Dict_extra [simp]: "fr_data (Dict_extra k f key) = fr_data f"
  by (simp add: Dict_extra_def)

lemma fr_data_foldl_Dict_extra [simp]: "fr_data (foldl (Dict_extra k) f xs) = fr_data f"
  by (induction xs arbitrary: f) simp_all

lemma Dict_extra_errors:
  "set (fr_errors (Dict_extra k f key))
     \<subseteq> set (fr_errors f)
       \<union> (if key \<notin> set (ignore k) \<and> \<not> allow_any k \<and> key \<notin> set (extras k)
          then {(key, ErrMsg (py_str key @ '' is not allowed key''))} else {})"
  using set_dict_setitem_subset [of key _ "fr_errors f"]
  by (auto simp: Dict_extra_def)

lemma foldl_Dict_extra_errors:
  "set (fr_errors (foldl (Dict_extra k) f xs))
     \<subseteq> set (fr_errors f)
       \<union> (\<lambda>n. (n, ErrMsg (py_str n @ '' is not allowed key'')))
           ` {n \<in> set xs. n \<notin> set (ignore k) \<and> \<not> allow_any k \<and> n \<notin> set (extras k)}"
proof (induction xs arbitrary: f)
  case Nil
  then show ?case by simp
next
  case (Cons x xs)
  from Cons.IH [of "Dict_extra k f x"] Dict_extra_errors [of k f x]
  show ?case by (auto split: if_splits)
qed

lemma foldl_Dict_extra_errors_other:
  "n \<notin> set xs \<Longrightarrow>
   map_of (fr_errors (foldl (Dict_extra k) f xs)) n = map_of (fr_errors f) n"
  by (induction xs arbitrary: f) (auto simp: Dict_extra_def)

text \<open>
  C1, as the code has it. Take a schema whose keys have pairwise different source
  names, and a declared key that is absent from the input, has no default and is not
  optional, where no other declared key is renamed to this key's source name and no
  child trafaret crashes. Then \<open>Dict.check\<close> raises a \<open>DataError\<close> whose dict has
  \<open>is required\<close> under the key's source name (\<open>Key.pop\<close> yields \<open>self.name\<close>, not
  \<open>get_name()\<close>). Every entry of that dict is the \<open>is required\<close> of a missing key under
  its source name, the child's error of a declared key under its target name, or the
  \<open>is not allowed key\<close> of an input entry no declared key consumed: a declared key
  whose value the child accepted puts nothing into it.
\<close>

theorem Dict_check_missing_required_key:
  assumes "key \<in> set ks"
      and "\<not> dict_contains (PStr (key_name key)) d"
      and "key_default key = PNone"
      and "\<not> optional key"
      and "distinct (map key_name ks)"
      and "\<forall>key'\<in>set ks. key' \<noteq> key \<longrightarrow> get_name key' \<noteq> key_name key"
      and "\<forall>key'\<in>set ks. key_called d key' \<longrightarrow>
             \<not> is_crash (check n env (key_trafaret key') (key_value d key'))"
  shows "\<exists>errs.
     check (Suc n) env (Trafaret (DictT ex aa ig ia ks) cs) (PDict d)
       = Inl (DataError (ErrDict errs))
     \<and> map_of errs (PStr (key_name key)) = Some (ErrMsg ''is required'')
     \<and> (\<forall>name e. map_of errs name = Some e \<longrightarrow>
           (\<exists>key'\<in>set ks. name = PStr (key_name key') \<and> \<not> key_called d key'
               \<and> \<not> optional key' \<and> e = ErrMsg ''is required'')
         \<or> (\<exists>key'\<in>set ks. name = PStr (get_name key') \<and> key_called d key'
               \<and> check n env (key_trafaret key') (key_value d key') = Inl (DataError e))
         \<or> (name \<in> fst ` set d \<and> name \<notin> names ks \<and> \<not> ia
               \<and> name \<notin> set ig \<and> \<not> aa \<and> name \<notin> set ex
               \<and> e = ErrMsg (py_str name @ '' is not allowed key'')))"
proof -
  let ?chk = "check n env"
  let ?k = "DictT ex aa ig ia ks"
  let ?f0 = "\<lparr>fr_data = d, fr_collect = [], fr_errors = []\<rparr>"
  let ?f1 = "foldl (\<lambda>f key. key_step ?chk key f) ?f0 ks"
  let ?f2 = "if \<not> ia then foldl (Dict_extra ?k) ?f1 (map fst (fr_data ?f1)) else ?f1"
  let ?N = "PStr (key_name key)"
  have loop: "Dict_keys_loop ?chk ks ?f0 = Inr ?f1"
    using assms(5,7) by (intro Dict_keys_loop_no_crash) simp_all
  have data1: "fr_data ?f1 = filter (\<lambda>p. fst p \<notin> names ks) d"
    by (simp add: foldl_key_step_data)
  have nc: "\<not> key_called d key"
    using assms(2,3) by (simp add: key_called_def)
  have req1: "map_of (fr_errors ?f1) ?N = Some (ErrMsg ''is required'')"
    using assms(1,4,5,6) nc by (intro foldl_key_step_required) simp_all
  have "?N \<notin> fst ` set d"
    using assms(2) by (simp add: dict_contains_iff)
  then have "?N \<notin> set (map fst (fr_data ?f1))"
    unfolding data1 by auto
  then have req2: "map_of (fr_errors ?f2) ?N = Some (ErrMsg ''is required'')"
    using req1 by (simp add: foldl_Dict_extra_errors_other)
  then have ne: "fr_errors ?f2 \<noteq> []" by auto
  have res: "check (Suc n) env (Trafaret ?k cs) (PDict d)
               = Inl (DataError (ErrDict (fr_errors ?f2)))"
    using loop ne by (simp add: check_val_def Dict_check_val_def Let_def)
  have e1: "set (fr_errors ?f1) \<subseteq> {(n, e). \<exists>key'\<in>set ks. key_err ?chk d key' n e}"
    using foldl_key_step_errors [OF assms(5), of ?chk ?f0] by simp
  have e2: "set (fr_errors ?f2) \<subseteq> set (fr_errors ?f1)
              \<union> (\<lambda>n. (n, ErrMsg (py_str n @ '' is not allowed key'')))
                  ` {n \<in> set (map fst (fr_data ?f1)). \<not> ia \<and> n \<notin> set ig \<and> \<not> aa \<and> n \<notin> set ex}"
    using foldl_Dict_extra_errors [of ?k ?f1 "map fst (fr_data ?f1)"] by auto
  have prov: "\<forall>name e. map_of (fr_errors ?f2) name = Some e \<longrightarrow>
           (\<exists>key'\<in>set ks. name = PStr (key_name key') \<and> \<not> key_called d key'
               \<and> \<not> optional key' \<and> e = ErrMsg ''is required'')
         \<or> (\<exists>key'\<in>set ks. name = PStr (get_name key') \<and> key_called d key'
               \<and> ?chk (key_trafaret key') (key_value d key') = Inl (DataError e))
         \<or> (name \<in> fst ` set d \<and> name \<notin> names ks \<and> \<not> ia
               \<and> name \<notin> set ig \<and> \<not> aa \<and> name \<notin> set ex
               \<and> e = ErrMsg (py_str name @ '' is not allowed key''))"
  proof (intro allI impI)
    fix name e
    assume "map_of (fr_errors ?f2) name = Some e"
    then have "(name, e) \<in> set (fr_errors ?f2)" by (rule map_of_SomeD)
    with e2 have "(name, e) \<in> set (fr_errors ?f1)
        \<or> (name \<in> set (map fst (fr_data ?f1)) \<and> \<not> ia \<and> name \<notin> set ig \<and> \<not> aa
             \<and> name \<notin> set ex \<and> e = ErrMsg (py_str name @ '' is not allowed key''))"
      by auto
    then show "(\<exists>key'\<in>set ks. name = PStr (key_name key') \<and> \<not> key_called d key'
               \<and> \<not> optional key' \<and> e = ErrMsg ''is required'')
         \<or> (\<exists>key'\<in>set ks. name = PStr (get_name key') \<and> key_called d key'
               \<and> ?chk (key_trafaret key') (key_value d key') = Inl (DataError e))
         \<or> (name \<in> fst ` set d \<and> name \<notin> names ks \<and> \<not> ia
               \<and> name \<notin> set ig \<and> \<not> aa \<and> name \<notin> set ex
               \<and> e = ErrMsg (py_str name @ '' is not allowed key''))"
    proof
      assume "(name, e) \<in> set (fr_errors ?f1)"
      with e1 obtain key' where "key' \<in> set ks" "key_err ?chk d key' name e" by auto
      then show ?thesis unfolding key_err_def by blast
    next
      assume a: "name \<in> set (map fst (fr_data ?f1)) \<and> \<not> ia \<and> name \<notin> set ig \<and> \<not> aa
             \<and> name \<notin> set ex \<and> e = ErrMsg (py_str name @ '' is not allowed key'')"
      then have "name \<in> fst ` set d \<and> name \<notin> names ks"
        unfolding data1 by auto
      with a show ?thesis by blast
    qed
  qed
  from res req2 prov show ?thesis by blast
qed

text \<open>
  \<open>Dict({Key('bar') >> 'baz': String}, foo=Int)\<close> on \<open>{'foo': 1}\<close>: the error is under
  \<open>bar\<close>, and nothing is under \<open>foo\<close> or \<open>baz\<close>.
\<close>

theorem Dict_check_missing_required_key_witness:
  "\<exists>errs.
     check (Suc 1) (\<lambda>a. None)
       (Trafaret (DictT [] False [] False
          [Key ''foo'' PNone False None (Trafaret (IntT None None None None) None),
           Key ''bar'' PNone False (Some ''baz'') (Trafaret (StringT False) None)]) None)
       (PDict [(PStr ''foo'', PInt 1)])
       = Inl (DataError (ErrDict errs))
     \<and> map_of errs (PStr ''bar'') = Some (ErrMsg ''is required'')
     \<and> map_of errs (PStr ''foo'') = None
     \<and> map_of errs (PStr ''baz'') = None"
proof -
  let ?foo = "Key ''foo'' PNone False None (Trafaret (IntT None None None None) None)"
  let ?bar = "Key ''bar'' PNone False (Some ''baz'') (Trafaret (StringT False) None)"
  let ?d = "[(PStr ''foo'', PInt 1)]"
  have h: "?bar \<in> set [?foo, ?bar]" "\<not> dict_contains (PStr (key_name ?bar)) ?d"
    "key_default ?bar = PNone" "\<not> optional ?bar" "distinct (map key_name [?foo, ?bar])"
    "\<forall>key'\<in>set [?foo, ?bar]. key' \<noteq> ?bar \<longrightarrow> get_name key' \<noteq> key_name ?bar"
    "\<forall>key'\<in>set [?foo, ?bar]. key_called ?d key' \<longrightarrow>
       \<not> is_crash (check 1 (\<lambda>a. None) (key_trafaret key') (key_value ?d key'))"
    by (simp_all add: dict_contains_def get_name_def key_called_def key_value_def
          dict_pop_def leaf_defs)
  from Dict_check_missing_required_key [OF h, of "[]" False "[]" False None]
  obtain errs where
    e: "check (Suc 1) (\<lambda>a. None) (Trafaret (DictT [] False [] False [?foo, ?bar]) None) (PDict ?d)
          = Inl (DataError (ErrDict errs))"
    and r: "map_of errs (PStr ''bar'') = Some (ErrMsg ''is required'')"
    by auto
  have "check (Suc 1) (\<lambda>a. None) (Trafaret (DictT [] False [] False [?foo, ?bar]) None) (PDict ?d)
          = Inl (DataError (ErrDict [(PStr ''bar'', ErrMsg ''is required'')]))"
    by (simp add: leaf_defs dict_defs)
  with e have "errs = [(PStr ''bar'', ErrMsg ''is required'')]" by simp
  with e r show ?thesis by simp
qed

text \<open>
  C1 as stated fails on a renamed key: \<open>Dict({Key('a') >> 'b': Int})\<close> on \<open>{}\<close> reports
  \<open>is required\<close> under the source name \<open>a\<close>, and nothing under the target name \<open>b\<close>.
\<close>

theorem Dict_required_error_under_source_name:
  "check (Suc 1) (\<lambda>a. None)
     (Trafaret (DictT [] False [] False
        [Key ''a'' PNone False (Some ''b'') (Trafaret (IntT None None None None) None)]) None)
     (PDict [])
   = Inl (DataError (ErrDict [(PStr ''a'', ErrMsg ''is required'')]))
   \<and> get_name (Key ''a'' PNone False (Some ''b'') (Trafaret (IntT None None None None) None))
       = ''b''
   \<and> map_of [(PStr ''a'', ErrMsg ''is required'')] (PStr ''b'') = None"
  by (simp add: leaf_defs dict_defs)

section \<open>Dict: allowed extra keys\<close>

text \<open>
  C2. With \<open>allow_extra('eggs')\<close> the schema \<open>Dict(foo=Int, bar=String)\<close> accepts
  \<open>{'foo': 1, 'bar': 'x', 'eggs': None}\<close>, but the value it returns under \<open>eggs\<close> is not
  the input's \<open>None\<close>: \<open>collect[key] = data\<close> stores the whole dict of left-over entries.
\<close>

theorem Dict_allowed_extra_gets_leftover_dict:
  "check (Suc (Suc n)) env
     (Trafaret (DictT [PStr ''eggs''] False [] False
        [Key ''foo'' PNone False None (Trafaret (IntT None None None None) None),
         Key ''bar'' PNone False None (Trafaret (StringT False) None)]) None)
     (PDict [(PStr ''foo'', PInt 1), (PStr ''bar'', PStr ''x''), (PStr ''eggs'', PNone)])
   = Inr (PDict [(PStr ''foo'', PInt 1), (PStr ''bar'', PStr ''x''),
                 (PStr ''eggs'', PDict [(PStr ''eggs'', PNone)])])"
  by (simp add: leaf_defs dict_defs)

section \<open>Or\<close>

lemma enumerate_map_nth:
  "map (\<lambda>(i, e). f i e) (enumerate 0 es) = map (\<lambda>i. f i (es ! i)) [0..<length es]"
  by (rule nth_equalityI) (simp_all add: nth_enumerate_eq)

lemma Or_loop_all_fail:
  "list_all2 (\<lambda>t e. chk t value = Inl (DataError e)) ts es \<Longrightarrow>
   Or_loop chk ts value errors
     = Inl (DataError (ErrDict (map (\<lambda>(i, e). (PInt (int i), e)) (enumerate 0 (errors @ es)))))"
  by (induction ts es arbitrary: errors rule: list_all2_induct) simp_all

lemma Or_loop_first_success:
  "list_all2 (\<lambda>t e. chk t value = Inl (DataError e)) pre es \<Longrightarrow> chk t value = Inr r \<Longrightarrow>
   Or_loop chk (pre @ t # post) value errors = Inr r"
  by (induction pre es arbitrary: errors rule: list_all2_induct) simp_all

lemma Or_loop_first_crash:
  "list_all2 (\<lambda>t e. chk t value = Inl (DataError e)) pre es \<Longrightarrow> is_crash (chk t value) \<Longrightarrow>
   Or_loop chk (pre @ t # post) value errors = chk t value"
proof (induction pre es arbitrary: errors rule: list_all2_induct)
  case Nil
  from is_crash_Inl [OF Nil] obtain x where "chk t value = Inl x" "\<forall>e. x \<noteq> DataError e"
    by blast
  then show ?case by (cases x) (simp_all add: catch_error_def)
next
  case (Cons t' e pre es)
  then show ?case by simp
qed

text \<open>
  C3, as the code has it. \<open>Or\<close> tries its children in the order they were given, and
  catches \<open>DataError\<close> only. When the children before \<open>t\<close> all raise \<open>DataError\<close> and \<open>t\<close>
  returns \<open>r\<close>, the \<open>Or\<close> returns \<open>r\<close> (through its own converters, if any), whatever
  the children after \<open>t\<close> are: they are not called. When every child raises
  \<open>DataError\<close>, the \<open>Or\<close> raises a \<open>DataError\<close> whose dict maps each position
  \<open>0, 1, ...\<close> to the error of the child at that position. When the children before
  \<open>t\<close> all raise \<open>DataError\<close> and \<open>t\<close> raises another exception, the \<open>Or\<close> raises that
  exception, whatever the children after \<open>t\<close> are.
\<close>

theorem Or_check_first_success_else_all_errors:
  "(list_all2 (\<lambda>t e. check n env t value = Inl (DataError e)) pre es \<longrightarrow>
    check n env t value = Inr r \<longrightarrow>
      check (Suc n) env (Trafaret (OrT (pre @ t # post)) cs) value = Inr (convert cs r))
   \<and> (list_all2 (\<lambda>t e. check n env t value = Inl (DataError e)) ts es \<longrightarrow>
      check (Suc n) env (Trafaret (OrT ts) cs) value
        = Inl (DataError (ErrDict (map (\<lambda>i. (PInt (int i), es ! i)) [0..<length ts]))))
   \<and> (list_all2 (\<lambda>t e. check n env t value = Inl (DataError e)) pre es \<longrightarrow>
    is_crash (check n env t value) \<longrightarrow>
      check (Suc n) env (Trafaret (OrT (pre @ t # post)) cs) value = check n env t value)"
proof (intro conjI impI)
  assume "list_all2 (\<lambda>t e. check n env t value = Inl (DataError e)) pre es"
    and "check n env t value = Inr r"
  then show "check (Suc n) env (Trafaret (OrT (pre @ t # post)) cs) value = Inr (convert cs r)"
    by (simp add: check_val_def Or_check_val_def Or_loop_first_success)
next
  assume a: "list_all2 (\<lambda>t e. check n env t value = Inl (DataError e)) ts es"
  then have "length ts = length es" by (rule list_all2_lengthD)
  with a show "check (Suc n) env (Trafaret (OrT ts) cs) value
        = Inl (DataError (ErrDict (map (\<lambda>i. (PInt (int i), es ! i)) [0..<length ts])))"
    by (simp add: check_val_def Or_check_val_def Or_loop_all_fail enumerate_map_nth)
next
  assume a: "list_all2 (\<lambda>t e. check n env t value = Inl (DataError e)) pre es"
    and c: "is_crash (check n env t value)"
  from is_crash_Inl [OF c] obtain x where x: "check n env t value = Inl x" by blast
  from a c have "Or_loop (check n env) (pre @ t # post) value [] = Inl x"
    unfolding x [symmetric] by (rule Or_loop_first_crash)
  then show "check (Suc n) env (Trafaret (OrT (pre @ t # post)) cs) value = check n env t value"
    by (simp add: check_val_def Or_check_val_def x)
qed

theorem Or_check_first_success_else_all_errors_witness:
  "check (Suc 1) (\<lambda>a. None)
     (Trafaret (OrT ([Trafaret (StringT False) None] @ Trafaret NullT None
          # [Trafaret (CallT (\<lambda>v. Inl (RuntimeError ''never called''))) None])) None) PNone
     = Inr PNone
   \<and> check (Suc 1) (\<lambda>a. None)
     (Trafaret (OrT [Trafaret (StringT False) None, Trafaret NullT None]) None) (PInt 1)
     = Inl (DataError (ErrDict [(PInt 0, ErrMsg ''value is not string''),
                                (PInt 1, ErrMsg ''value should be None'')]))
   \<and> check (Suc 1) (\<lambda>a. None)
     (Trafaret (OrT ([Trafaret (StringT False) None]
          @ Trafaret (CallT (\<lambda>v. Inl (RuntimeError ''fn raises''))) None
          # [Trafaret NullT None])) None) PNone
     = Inl (RuntimeError ''fn raises'')"
proof -
  have a: "list_all2 (\<lambda>t e. check 1 (\<lambda>a. None) t PNone = Inl (DataError e))
             [Trafaret (StringT False) None] [ErrMsg ''value is not string'']"
    by (simp add: leaf_defs)
  have b: "check 1 (\<lambda>a. None) (Trafaret NullT None) PNone = Inr PNone"
    by (simp add: leaf_defs)
  have c: "list_all2 (\<lambda>t e. check 1 (\<lambda>a. None) t (PInt 1) = Inl (DataError e))
             [Trafaret (StringT False) None, Trafaret NullT None]
             [ErrMsg ''value is not string'', ErrMsg ''value should be None'']"
    by (simp add: leaf_defs)
  have d: "map (\<lambda>i. (PInt (int i), [ErrMsg ''value is not string'', ErrMsg ''value should be None''] ! i)) [0..<2]
       = [(PInt 0, ErrMsg ''value is not string''), (PInt 1, ErrMsg ''value should be None'')]"
    by (simp add: upt_rec)
  have e: "is_crash (check 1 (\<lambda>a. None)
                (Trafaret (CallT (\<lambda>v. Inl (RuntimeError ''fn raises''))) None) PNone)"
         "check 1 (\<lambda>a. None) (Trafaret (CallT (\<lambda>v. Inl (RuntimeError ''fn raises''))) None) PNone
            = Inl (RuntimeError ''fn raises'')"
    by (simp_all add: leaf_defs)
  from a b c d e
       Or_check_first_success_else_all_errors
         [of 1 "\<lambda>a. None" PNone "[Trafaret (StringT False) None]"
             "[ErrMsg ''value is not string'']"
             "Trafaret (CallT (\<lambda>v. Inl (RuntimeError ''fn raises''))) None" _
             "[Trafaret NullT None]" None]
       Or_check_first_success_else_all_errors
         [of 1 "\<lambda>a. None" PNone "[Trafaret (StringT False) None]"
             "[ErrMsg ''value is not string'']" "Trafaret NullT None" PNone
             "[Trafaret (CallT (\<lambda>v. Inl (RuntimeError ''never called''))) None]" None]
       Or_check_first_success_else_all_errors
         [of 1 "\<lambda>a. None" "PInt 1" _
             "[ErrMsg ''value is not string'', ErrMsg ''value should be None'']" _ _ _ None
             "[Trafaret (StringT False) None, Trafaret NullT None]"]
  show ?thesis by (simp del: check.simps)
qed

text \<open>
  C3 as stated fails where a child before the first success raises something other
  than \<open>DataError\<close>: \<open>Or(Mapping(String, Int), Null)\<close> on \<open>None\<close> raises the
  \<open>AttributeError\<close> of \<open>mapping.items()\<close>, although \<open>Null\<close> accepts \<open>None\<close>.
\<close>

theorem Or_crash_before_success:
  "check (Suc 1) (\<lambda>a. None)
     (Trafaret (OrT [Trafaret (MappingT (Trafaret (StringT False) None)
                                        (Trafaret (IntT None None None None) None)) None,
                     Trafaret NullT None]) None) PNone
     = Inl (AttributeError ''items'')
   \<and> check 1 (\<lambda>a. None) (Trafaret NullT None) PNone = Inr PNone"
  by (simp add: leaf_defs Or_check_val_def Mapping_check_val_def)

section \<open>List\<close>

lemma List_loop_no_crash:
  assumes "\<forall>x\<in>set xs. \<not> is_crash (chk t x)"
      and "\<forall>p\<in>set errors. \<exists>j<m. fst p = PInt (int j)"
  shows "List_loop chk t (enumerate m xs) lst errors =
     Inr (lst @ map (\<lambda>x. the_value (chk t x)) (filter (\<lambda>x. \<not> is_DataError (chk t x)) xs),
          errors @ map (\<lambda>(i, x). (PInt (int i), the_DataError (chk t x)))
                     (filter (\<lambda>(i, x). is_DataError (chk t x)) (enumerate m xs)))"
  using assms
proof (induction xs arbitrary: m lst errors)
  case Nil
  then show ?case by simp
next
  case (Cons x xs)
  show ?case
  proof (cases "is_DataError (chk t x)")
    case True
    have fresh: "PInt (int m) \<notin> fst ` set errors"
      using Cons.prems(2) by force
    have inv: "\<forall>p\<in>set (errors @ [(PInt (int m), the_DataError (chk t x))]). \<exists>j<Suc m. fst p = PInt (int j)"
      using Cons.prems(2) by (auto intro: less_SucI)
    from True Cons.prems(1) Cons.IH [OF _ inv] show ?thesis
      by (simp add: catch_error_cases dict_setitem_fresh [OF fresh])
  next
    case False
    have inv: "\<forall>p\<in>set errors. \<exists>j<Suc m. fst p = PInt (int j)"
      using Cons.prems(2) by (auto intro: less_SucI)
    from False Cons.prems(1) Cons.IH [OF _ inv] show ?thesis
      by (simp add: catch_error_cases)
  qed
qed

lemma enumerate_0_map: "enumerate 0 xs = map (\<lambda>i. (i, xs ! i)) [0..<length xs]"
  by (rule nth_equalityI) (simp_all add: nth_enumerate_eq)

lemma List_errors_by_index:
  "map (\<lambda>(i, x). (PInt (int i), f x)) (filter (\<lambda>(i, x). P x) (enumerate 0 xs))
     = map (\<lambda>i. (PInt (int i), f (xs ! i))) (filter (\<lambda>i. P (xs ! i)) [0..<length xs])"
  by (simp add: enumerate_0_map filter_map comp_def)

text \<open>
  C4, as the code has it. On a list within the length bounds, when no call of the
  child's \<open>check\<close> raises anything but \<open>DataError\<close>: if some element is rejected, \<open>List.check\<close> raises a \<open>DataError\<close> whose dict
  has exactly the indices of the rejected elements as keys, in increasing order, each
  with the error of its element (every element is checked, none after a failure is
  skipped), and no list is returned; otherwise it returns the list of the child's
  results, in order.
\<close>

theorem List_check_reports_every_failing_index:
  assumes "mn \<le> int (length xs)"
      and "case mx of None \<Rightarrow> True | Some m \<Rightarrow> int (length xs) \<le> m"
      and "\<forall>x\<in>set xs. \<not> is_crash (check n env t x)"
  shows "check (Suc n) env (Trafaret (ListT t mn mx) cs) (PList xs) =
     (if \<exists>x\<in>set xs. is_DataError (check n env t x)
      then Inl (DataError (ErrDict
             (map (\<lambda>i. (PInt (int i), the_DataError (check n env t (xs ! i))))
                  (filter (\<lambda>i. is_DataError (check n env t (xs ! i))) [0..<length xs]))))
      else Inr (convert cs (PList (map (\<lambda>x. the_value (check n env t x)) xs))))"
proof -
  let ?chk = "check n env"
  have loop: "List_loop ?chk t (enumerate 0 xs) [] [] =
     Inr (map (\<lambda>x. the_value (?chk t x)) (filter (\<lambda>x. \<not> is_DataError (?chk t x)) xs),
          map (\<lambda>i. (PInt (int i), the_DataError (?chk t (xs ! i))))
                  (filter (\<lambda>i. is_DataError (?chk t (xs ! i))) [0..<length xs]))"
    using List_loop_no_crash [of xs "check n env" t "[]" 0 "[]"] assms(3)
    by (simp add: List_errors_by_index)
  have ne: "(filter (\<lambda>i. is_DataError (?chk t (xs ! i))) [0..<length xs] \<noteq> [])
              = (\<exists>x\<in>set xs. is_DataError (?chk t x))"
    by (force simp: filter_empty_conv in_set_conv_nth)
  have all: "\<not> (\<exists>x\<in>set xs. is_DataError (?chk t x)) \<Longrightarrow>
               filter (\<lambda>x. \<not> is_DataError (?chk t x)) xs = xs"
    by (simp add: filter_id_conv)
  from assms(1,2) loop ne all show ?thesis
    by (auto simp: check_val_def List_check_val_def split: option.splits)
qed

text \<open>\<open>[1, 'x', 2, 'y']\<close> against \<open>List(Int)\<close>: the errors are keyed \<open>1\<close> and \<open>3\<close>.\<close>

theorem List_check_reports_every_failing_index_witness:
  "check (Suc 1) (\<lambda>a. None)
     (Trafaret (ListT (Trafaret (IntT None None None None) None) 0 None) None)
     (PList [PInt 1, PStr ''x'', PInt 2, PStr ''y''])
   = Inl (DataError (ErrDict
       [(PInt 1, ErrMsg ''value can't be converted to int''),
        (PInt 3, ErrMsg ''value can't be converted to int'')]))
   \<and> check (Suc 1) (\<lambda>a. None)
     (Trafaret (ListT (Trafaret (IntT None None None None) None) 0 None) None)
     (PList [PInt 1, PStr ''2''])
   = Inr (PList [PInt 1, PInt 2])"
proof -
  let ?int = "Trafaret (IntT None None None None) None"
  have x: "check 1 (\<lambda>a. None) ?int (PStr ''x'')
             = Inl (DataError (ErrMsg ''value can't be converted to int''))"
    by (simp add: leaf_defs int_of_str_def strip_def is_space_def nat_of_digits_def is_digit_def)
  have y: "check 1 (\<lambda>a. None) ?int (PStr ''y'')
             = Inl (DataError (ErrMsg ''value can't be converted to int''))"
    by (simp add: leaf_defs int_of_str_def strip_def is_space_def nat_of_digits_def is_digit_def)
  have two: "check 1 (\<lambda>a. None) ?int (PStr ''2'') = Inr (PInt 2)"
    by (simp add: leaf_defs int_of_str_def strip_def is_space_def nat_of_digits_def is_digit_def
          digit_val_def)
  have i: "\<And>k. check 1 (\<lambda>a. None) ?int (PInt k) = Inr (PInt k)"
    by (simp add: leaf_defs)
  have u: "[0..<4] = [0, 1, 2, 3]" "[0..<2] = [0, 1]"
    by (simp_all add: upt_rec)
  from x y two i u
    List_check_reports_every_failing_index
      [of 0 "[PInt 1, PStr ''x'', PInt 2, PStr ''y'']" None 1 "\<lambda>a. None" ?int None]
    List_check_reports_every_failing_index
      [of 0 "[PInt 1, PStr ''2'']" None 1 "\<lambda>a. None" ?int None]
  show ?thesis by (simp del: check.simps)
qed

text \<open>
  C4 as stated fails where the child raises something other than \<open>DataError\<close> on an
  element: \<open>List(Mapping(String, Int))\<close> on \<open>[{1: 1}, 5, {2: 2}]\<close> raises the
  \<open>AttributeError\<close> of \<open>mapping.items()\<close> at index 1; the element at index 0 fails with
  a \<open>DataError\<close>, and no error dict with its index is raised.
\<close>

theorem List_crash_hides_failing_index:
  "check (Suc (Suc (Suc 0))) (\<lambda>a. None)
     (Trafaret (ListT (Trafaret (MappingT (Trafaret (StringT False) None)
                                          (Trafaret (IntT None None None None) None)) None)
                      0 None) None)
     (PList [PDict [(PInt 1, PInt 1)], PInt 5, PDict [(PInt 2, PInt 2)]])
     = Inl (AttributeError ''items'')
   \<and> check (Suc (Suc 0)) (\<lambda>a. None)
       (Trafaret (MappingT (Trafaret (StringT False) None)
                           (Trafaret (IntT None None None None) None)) None)
       (PDict [(PInt 1, PInt 1)])
     = Inl (DataError (ErrDict [(PInt 1, ErrDict [(PStr ''key'', ErrMsg ''value is not string'')])]))"
  by (simp add: leaf_defs List_check_val_def Mapping_check_val_def enumerate_eq_zip)

section \<open>Mapping\<close>

lemma Mapping_loop_Cons_no_crash:
  assumes "\<not> is_crash (chk (mapping_key k) key)"
      and "\<not> is_crash (chk (mapping_value k) val)"
      and "\<forall>ck. chk (mapping_key k) key = Inr ck \<longrightarrow> hashable ck"
  shows "Mapping_loop chk k ((key, val) # rest) checked_mapping errors =
     (if entry_fails (chk (mapping_key k)) (chk (mapping_value k)) (key, val)
      then Mapping_loop chk k rest checked_mapping
             (dict_setitem (fst (entry_error (chk (mapping_key k)) (chk (mapping_value k)) (key, val)))
                (snd (entry_error (chk (mapping_key k)) (chk (mapping_value k)) (key, val))) errors)
      else Mapping_loop chk k rest
             (dict_setitem (fst (entry_checked (chk (mapping_key k)) (chk (mapping_value k)) (key, val)))
                (snd (entry_checked (chk (mapping_key k)) (chk (mapping_value k)) (key, val))) checked_mapping) errors)"
proof (cases "is_DataError (chk (mapping_key k) key)")
  case True
  with assms(1,2) show ?thesis
    by (simp add: catch_error_cases entry_fails_def entry_error_def pair_errors_def)
next
  case False
  with assms(1) obtain ck where ck: "chk (mapping_key k) key = Inr ck"
    by (cases "chk (mapping_key k) key" rule: is_crash.cases) auto
  with assms(3) have "hashable ck" by simp
  with False assms(1,2) ck show ?thesis
    by (simp add: catch_error_cases entry_fails_def entry_error_def pair_errors_def
          entry_checked_def)
qed

lemma Mapping_loop_no_crash:
  assumes "\<forall>entry\<in>set d. \<not> is_crash (chk (mapping_key k) (fst entry))
                        \<and> \<not> is_crash (chk (mapping_value k) (snd entry))"
      and "\<forall>entry\<in>set d. \<forall>ck. chk (mapping_key k) (fst entry) = Inr ck \<longrightarrow> hashable ck"
  shows "Mapping_loop chk k d checked_mapping errors =
     Inr (foldl (\<lambda>m p. dict_setitem (fst p) (snd p) m) checked_mapping
            (map (entry_checked (chk (mapping_key k)) (chk (mapping_value k))) (filter (\<lambda>e. \<not> entry_fails (chk (mapping_key k)) (chk (mapping_value k)) e) d)),
          foldl (\<lambda>m p. dict_setitem (fst p) (snd p) m) errors
            (map (entry_error (chk (mapping_key k)) (chk (mapping_value k))) (filter (entry_fails (chk (mapping_key k)) (chk (mapping_value k))) d)))"
  using assms
proof (induction d arbitrary: checked_mapping errors)
  case Nil
  then show ?case by simp
next
  case (Cons entry d)
  obtain key val where entry: "entry = (key, val)" by (cases entry)
  have step: "Mapping_loop chk k ((key, val) # d) checked_mapping errors =
     (if entry_fails (chk (mapping_key k)) (chk (mapping_value k)) (key, val)
      then Mapping_loop chk k d checked_mapping
             (dict_setitem (fst (entry_error (chk (mapping_key k)) (chk (mapping_value k)) (key, val)))
                (snd (entry_error (chk (mapping_key k)) (chk (mapping_value k)) (key, val))) errors)
      else Mapping_loop chk k d
             (dict_setitem (fst (entry_checked (chk (mapping_key k)) (chk (mapping_value k)) (key, val)))
                (snd (entry_checked (chk (mapping_key k)) (chk (mapping_value k)) (key, val))) checked_mapping) errors)"
    using Cons.prems entry by (intro Mapping_loop_Cons_no_crash) auto
  have IH: "\<And>cm er. Mapping_loop chk k d cm er =
     Inr (foldl (\<lambda>m p. dict_setitem (fst p) (snd p) m) cm
            (map (entry_checked (chk (mapping_key k)) (chk (mapping_value k))) (filter (\<lambda>e. \<not> entry_fails (chk (mapping_key k)) (chk (mapping_value k)) e) d)),
          foldl (\<lambda>m p. dict_setitem (fst p) (snd p) m) er
            (map (entry_error (chk (mapping_key k)) (chk (mapping_value k))) (filter (entry_fails (chk (mapping_key k)) (chk (mapping_value k))) d)))"
    using Cons.IH Cons.prems by simp
  show ?case
    unfolding entry step by (simp add: IH del: Mapping_loop.simps)
qed

lemma dict_of_distinct: "distinct (map fst ps) \<Longrightarrow> dict_of ps = ps"
  unfolding dict_of_def by (simp add: foldl_dict_setitem_fresh)

lemma map_of_dict_of: "map_of (dict_of ps) = map_of (rev ps)"
  unfolding dict_of_def by (simp add: map_of_foldl_dict_setitem)

lemma fst_entry_error [simp]: "fst (entry_error ck cv entry) = fst entry"
  by (simp add: entry_error_def)

text \<open>
  C5, as the code has it. For an input dict whose key and value checks do not crash
  and whose checked keys are hashable: every entry has its key and its value checked,
  the one whatever the other did; if some entry fails, \<open>Mapping.check\<close> raises a
  \<open>DataError\<close> whose dict has, for exactly the failing entries and under their input
  keys, a dict with the key's error under \<open>key\<close> and the value's error under \<open>value\<close>
  (each one present when that check failed); if none fails, the output is built by
  storing each checked value under its checked key in input order, so that a checked
  key maps to the checked value of the last entry checked to that key. When the
  checked keys are pairwise different the output is the list of checked pairs.
\<close>

theorem Mapping_check_every_entry:
  assumes "wf_dict d"
      and "\<forall>entry\<in>set d. \<not> is_crash (check n env tk (fst entry))
                          \<and> \<not> is_crash (check n env tv (snd entry))"
      and "\<forall>entry\<in>set d. \<forall>ck. check n env tk (fst entry) = Inr ck \<longrightarrow> hashable ck"
  shows "check (Suc n) env (Trafaret (MappingT tk tv) cs) (PDict d) =
     (if \<exists>entry\<in>set d. entry_fails (check n env tk) (check n env tv) entry
      then Inl (DataError (ErrDict
             (map (entry_error (check n env tk) (check n env tv))
                  (filter (entry_fails (check n env tk) (check n env tv)) d))))
      else Inr (convert cs (PDict
             (dict_of (map (entry_checked (check n env tk) (check n env tv)) d)))))
     \<and> map_of (dict_of (map (entry_checked (check n env tk) (check n env tv)) d))
         = map_of (rev (map (entry_checked (check n env tk) (check n env tv)) d))
     \<and> (distinct (map fst (map (entry_checked (check n env tk) (check n env tv)) d)) \<longrightarrow>
         dict_of (map (entry_checked (check n env tk) (check n env tv)) d)
           = map (entry_checked (check n env tk) (check n env tv)) d)"
proof -
  let ?k = "MappingT tk tv"
  let ?ck = "check n env tk" and ?cv = "check n env tv"
  let ?bad = "filter (entry_fails ?ck ?cv) d"
  have loop: "Mapping_loop (check n env) ?k d [] [] =
     Inr (dict_of (map (entry_checked ?ck ?cv) (filter (\<lambda>e. \<not> entry_fails ?ck ?cv e) d)),
          dict_of (map (entry_error ?ck ?cv) ?bad))"
    using Mapping_loop_no_crash [of d "check n env" ?k "[]" "[]"] assms(2,3)
    by (simp add: dict_of_def)
  have "distinct (map fst ?bad)"
    using assms(1) by (simp add: wf_dict_def distinct_map_filter)
  then have errs: "dict_of (map (entry_error ?ck ?cv) ?bad) = map (entry_error ?ck ?cv) ?bad"
    by (intro dict_of_distinct) (simp add: comp_def)
  have ne: "(map (entry_error ?ck ?cv) ?bad \<noteq> []) = (\<exists>entry\<in>set d. entry_fails ?ck ?cv entry)"
    by (auto simp: filter_empty_conv)
  have all: "\<not> (\<exists>entry\<in>set d. entry_fails ?ck ?cv entry) \<Longrightarrow>
               filter (\<lambda>e. \<not> entry_fails ?ck ?cv e) d = d"
    by (simp add: filter_id_conv)
  have res: "check (Suc n) env (Trafaret ?k cs) (PDict d) =
     (if \<exists>entry\<in>set d. entry_fails ?ck ?cv entry
      then Inl (DataError (ErrDict (map (entry_error ?ck ?cv) ?bad)))
      else Inr (convert cs (PDict (dict_of (map (entry_checked ?ck ?cv) d)))))"
    using loop errs ne all
    by (auto simp: check_val_def Mapping_check_val_def)
  show ?thesis
    using res by (simp add: map_of_dict_of dict_of_distinct del: check.simps)
qed

text \<open>
  The doctest: \<open>Mapping(String, Int)\<close> on \<open>{'foo': 1, 2: 'bar'}\<close> fails with both
  errors of the entry \<open>2\<close>.
\<close>

theorem Mapping_check_every_entry_witness:
  "check (Suc 1) (\<lambda>a. None)
     (Trafaret (MappingT (Trafaret (StringT False) None)
                         (Trafaret (IntT None None None None) None)) None)
     (PDict [(PStr ''foo'', PInt 1), (PInt 2, PStr ''bar'')])
   = Inl (DataError (ErrDict
       [(PInt 2, ErrDict [(PStr ''key'', ErrMsg ''value is not string''),
                          (PStr ''value'', ErrMsg ''value can't be converted to int'')])]))
   \<and> check (Suc 1) (\<lambda>a. None)
     (Trafaret (MappingT (Trafaret (StringT False) None)
                         (Trafaret (IntT None None None None) None)) None)
     (PDict [(PStr ''foo'', PInt 1), (PStr ''bar'', PStr ''2'')])
   = Inr (PDict [(PStr ''foo'', PInt 1), (PStr ''bar'', PInt 2)])"
proof -
  let ?str = "Trafaret (StringT False) None"
  let ?int = "Trafaret (IntT None None None None) None"
  let ?e = "\<lambda>a::nat. None :: trafaret option"
  have s: "\<And>x. check 1 ?e ?str (PStr x)
              = (if x = [] then Inl (DataError (ErrMsg ''blank value is not allowed''))
                 else Inr (PStr x))"
          "check 1 ?e ?str (PInt 2) = Inl (DataError (ErrMsg ''value is not string''))"
    by (simp_all add: leaf_defs)
  have i: "\<And>x. check 1 ?e ?int (PInt x) = Inr (PInt x)"
          "check 1 ?e ?int (PStr ''bar'')
             = Inl (DataError (ErrMsg ''value can't be converted to int''))"
          "check 1 ?e ?int (PStr ''2'') = Inr (PInt 2)"
    by (simp_all add: leaf_defs int_of_str_defs)
  have w: "wf_dict [(PStr ''foo'', PInt 1), (PInt 2, PStr ''bar'')]"
          "wf_dict [(PStr ''foo'', PInt 1), (PStr ''bar'', PStr ''2'')]"
    by (simp_all add: wf_dict_def)
  from s i
    Mapping_check_every_entry [OF w(1), of 1 ?e ?str ?int None]
    Mapping_check_every_entry [OF w(2), of 1 ?e ?str ?int None]
  show ?thesis
    by (simp add: entry_fails_def entry_error_def entry_checked_def pair_errors_def dict_of_def
          del: check.simps)
qed

text \<open>
  C5 as stated fails where two entries are checked to the same key:
  \<open>Mapping(Int, String)\<close> on \<open>{'1': 'a', '01': 'b'}\<close> returns \<open>{1: 'b'}\<close>; the checked key
  \<open>1\<close> of the first entry is not associated with its checked value \<open>'a'\<close>.
\<close>

theorem Mapping_colliding_keys_last_wins:
  "check (Suc 1) (\<lambda>a. None)
     (Trafaret (MappingT (Trafaret (IntT None None None None) None)
                         (Trafaret (StringT False) None)) None)
     (PDict [(PStr ''1'', PStr ''a''), (PStr ''01'', PStr ''b'')])
   = Inr (PDict [(PInt 1, PStr ''b'')])
   \<and> check 1 (\<lambda>a. None) (Trafaret (IntT None None None None) None) (PStr ''1'') = Inr (PInt 1)
   \<and> check 1 (\<lambda>a. None) (Trafaret (StringT False) None) (PStr ''a'') = Inr (PStr ''a'')
   \<and> map_of [(PInt 1, PStr ''b'')] (PInt 1) \<noteq> Some (PStr ''a'')"
  by (simp add: leaf_defs int_of_str_defs Mapping_check_val_def)

section \<open>The result of check depends on the schema and the input only\<close>

subsection \<open>The depth of the stack\<close>

text \<open>
  A call of \<open>check\<close> has the stack that its caller left to it. Where a call returns or
  raises without running out of stack, more stack changes nothing.
\<close>

lemma catch_error_agree:
  "agree chk chk' \<Longrightarrow> catch_error chk t v \<noteq> Inl RecursionError \<Longrightarrow>
   catch_error chk' t v = catch_error chk t v"
  by (cases "chk t v") (auto simp: agree_def catch_error_def split: exn.splits)

lemmas catch_iffs = catch_error_eq_Inr_Inr catch_error_eq_Inr_Inl

lemma Or_loop_agree:
  assumes "agree chk chk'"
  shows "Or_loop chk ts v errors \<noteq> Inl RecursionError \<Longrightarrow>
         Or_loop chk' ts v errors = Or_loop chk ts v errors"
proof (induction ts arbitrary: errors)
  case Nil
  then show ?case by simp
next
  case (Cons t ts)
  have "catch_error chk t v \<noteq> Inl RecursionError"
    using Cons.prems by auto
  with assms have c: "catch_error chk' t v = catch_error chk t v"
    by (rule catch_error_agree)
  from Cons.prems Cons.IH show ?case
    by (auto simp: c simp del: catch_iffs split: sum.splits)
qed

lemma List_loop_agree:
  assumes "agree chk chk'"
  shows "List_loop chk t ixs lst errors \<noteq> Inl RecursionError \<Longrightarrow>
         List_loop chk' t ixs lst errors = List_loop chk t ixs lst errors"
proof (induction ixs arbitrary: lst errors)
  case Nil
  then show ?case by simp
next
  case (Cons ix ixs)
  obtain i x where ix: "ix = (i, x)" by (cases ix)
  have "catch_error chk t x \<noteq> Inl RecursionError"
    using Cons.prems unfolding ix by auto
  with assms have c: "catch_error chk' t x = catch_error chk t x"
    by (rule catch_error_agree)
  from Cons.prems Cons.IH show ?case
    unfolding ix by (auto simp: c simp del: catch_iffs split: sum.splits)
qed

lemma Key_pop_agree:
  assumes "agree chk chk'" and "Key_pop chk key data \<noteq> Inl RecursionError"
  shows "Key_pop chk' key data = Key_pop chk key data"
proof (cases "key_called data key")
  case True
  have "catch_error chk (key_trafaret key) (key_value data key) \<noteq> Inl RecursionError"
    using assms(2) True by (auto simp: Key_pop_eq)
  with assms(1) have "catch_error chk' (key_trafaret key) (key_value data key)
               = catch_error chk (key_trafaret key) (key_value data key)"
    by (rule catch_error_agree)
  then show ?thesis by (simp add: Key_pop_eq)
next
  case False
  then show ?thesis by (simp add: Key_pop_eq)
qed

lemma Dict_keys_loop_agree:
  assumes "agree chk chk'"
  shows "Dict_keys_loop chk ks f \<noteq> Inl RecursionError \<Longrightarrow>
         Dict_keys_loop chk' ks f = Dict_keys_loop chk ks f"
proof (induction ks arbitrary: f)
  case Nil
  then show ?case by simp
next
  case (Cons key ks)
  have "Key_pop chk key (fr_data f) \<noteq> Inl RecursionError"
    using Cons.prems by auto
  with assms have c: "Key_pop chk' key (fr_data f) = Key_pop chk key (fr_data f)"
    by (rule Key_pop_agree)
  from Cons.prems Cons.IH show ?case
    by (auto simp: c split: sum.splits prod.splits)
qed

lemma Mapping_loop_agree:
  assumes "agree chk chk'"
  shows "Mapping_loop chk k d cm errors \<noteq> Inl RecursionError \<Longrightarrow>
         Mapping_loop chk' k d cm errors = Mapping_loop chk k d cm errors"
proof (induction d arbitrary: cm errors)
  case Nil
  then show ?case by simp
next
  case (Cons entry d)
  obtain key val where entry: "entry = (key, val)" by (cases entry)
  have k: "catch_error chk (mapping_key k) key \<noteq> Inl RecursionError"
    using Cons.prems unfolding entry by auto
  with assms have ck: "catch_error chk' (mapping_key k) key = catch_error chk (mapping_key k) key"
    by (rule catch_error_agree)
  show ?case
  proof (cases "catch_error chk (mapping_key k) key")
    case (Inl x)
    then show ?thesis
      unfolding entry by (simp add: ck del: catch_iffs)
  next
    case (Inr rk)
    have "catch_error chk (mapping_value k) val \<noteq> Inl RecursionError"
      using Cons.prems Inr unfolding entry by (auto simp del: catch_iffs)
    with assms
    have cv: "catch_error chk' (mapping_value k) val = catch_error chk (mapping_value k) val"
      by (rule catch_error_agree)
    from Cons.prems Cons.IH Inr show ?thesis
      unfolding entry
      by (auto simp: ck cv Let_def simp del: catch_iffs split: sum.splits if_splits)
  qed
qed

lemma check_val_agree:
  assumes "agree chk chk'" and "check_val chk env k v \<noteq> Inl RecursionError"
  shows "check_val chk' env k v = check_val chk env k v"
proof (cases k)
  case (OrT ts)
  with assms show ?thesis
    by (simp add: check_val_def Or_check_val_def Or_loop_agree)
next
  case (ListT t mn mx)
  with assms(2) have "\<And>xs. v = PList xs \<Longrightarrow> \<not> int (length xs) < mn \<Longrightarrow>
       \<not> (mx \<noteq> None \<and> int (length xs) > the mx) \<Longrightarrow>
       List_loop chk t (enumerate 0 xs) [] [] \<noteq> Inl RecursionError"
    by (auto simp: check_val_def List_check_val_def)
  with ListT assms(1) show ?thesis
    by (auto simp: check_val_def List_check_val_def List_loop_agree split: pyval.splits)
next
  case (DictT ex aa ig ia ks)
  with assms(2) have "\<And>d. v = PDict d \<Longrightarrow>
       Dict_keys_loop chk ks \<lparr>fr_data = d, fr_collect = [], fr_errors = []\<rparr> \<noteq> Inl RecursionError"
    by (auto simp: check_val_def Dict_check_val_def)
  with DictT assms(1) show ?thesis
    by (auto simp: check_val_def Dict_check_val_def Dict_keys_loop_agree split: pyval.splits)
next
  case (MappingT tk tv)
  with assms(2) have "\<And>d. v = PDict d \<Longrightarrow>
       Mapping_loop chk k d [] [] \<noteq> Inl RecursionError"
    by (auto simp: check_val_def Mapping_check_val_def)
  with MappingT assms(1) show ?thesis
    by (auto simp: check_val_def Mapping_check_val_def Mapping_loop_agree split: pyval.splits)
next
  case (ForwardT a)
  with assms show ?thesis
    by (auto simp: check_val_def Forward_check_val_def agree_def split: option.splits)
qed (simp_all add: check_val_def)

lemma check_Suc_same:
  "check n env t v \<noteq> Inl RecursionError \<Longrightarrow> check (Suc n) env t v = check n env t v"
proof (induction n arbitrary: t v)
  case 0
  then show ?case by simp
next
  case (Suc n)
  then have ag: "agree (check n env) (check (Suc n) env)"
    unfolding agree_def by blast
  show ?case
  proof (cases "has_check (kind t)")
    case True
    then show ?thesis by simp
  next
    case False
    have "check_val (check n env) env (kind t) v \<noteq> Inl RecursionError"
      using Suc.prems False by auto
    with ag have "check_val (check (Suc n) env) env (kind t) v
                    = check_val (check n env) env (kind t) v"
      by (rule check_val_agree)
    with False show ?thesis
      using check.simps(2) [of "Suc n" env t v] check.simps(2) [of n env t v]
      by (simp del: check.simps)
  qed
qed

lemma check_more_same:
  "check n env t v \<noteq> Inl RecursionError \<Longrightarrow> check (n + k) env t v = check n env t v"
  by (induction k) (simp_all add: check_Suc_same del: check.simps)

lemma check_any_stack_same:
  assumes "check n env t v \<noteq> Inl RecursionError"
      and "check m env t v \<noteq> Inl RecursionError"
  shows "check n env t v = check m env t v"
proof (cases "n \<le> m")
  case True
  then obtain k where "m = n + k" using le_Suc_ex by blast
  with assms(1) check_more_same [of n env t v k] show ?thesis by simp
next
  case False
  then obtain k where "n = m + k" using le_Suc_ex [of m n] by auto
  with assms(2) check_more_same [of m env t v k] show ?thesis by simp
qed

subsection \<open>The objects that check writes to\<close>

text \<open>
  Every heap that a call of \<open>check\<close> leaves extends the heap it started from, and its
  result is the result of \<open>check\<close> on the value of its argument. First the heaps.
\<close>

lemma extends_refl [simp]: "extends h h"
  by (simp add: extends_def)

lemma extends_nth: "extends h h' \<Longrightarrow> a < length h \<Longrightarrow> h' ! a = h ! a"
proof -
  assume e: "extends h h'" and a: "a < length h"
  from a have "take (length h) h' ! a = h' ! a" by simp
  with e show ?thesis by (simp add: extends_def)
qed

lemma extends_new: "extends h h' \<Longrightarrow> length h \<le> a \<Longrightarrow> a < length h' \<Longrightarrow> is_Copy (h' ! a)"
proof -
  assume e: "extends h h'" and a: "length h \<le> a" "a < length h'"
  from e have all: "\<forall>i<length (drop (length h) h'). is_Copy (drop (length h) h' ! i)"
    by (simp add: extends_def list_all_length)
  from a have "a - length h < length (drop (length h) h')" by simp
  with all have "is_Copy (drop (length h) h' ! (a - length h))" by blast
  with a show ?thesis by simp
qed

lemma extendsI:
  assumes "length h \<le> length h'" and "\<And>a. a < length h \<Longrightarrow> h' ! a = h ! a"
      and "\<And>a. length h \<le> a \<Longrightarrow> a < length h' \<Longrightarrow> is_Copy (h' ! a)"
  shows "extends h h'"
proof -
  have "take (length h) h' = h"
    using assms(1,2) by (intro nth_equalityI) simp_all
  moreover have "list_all is_Copy (drop (length h) h')"
    using assms(1,3) by (simp add: list_all_length)
  ultimately show ?thesis using assms(1) by (simp add: extends_def)
qed

lemma extends_length: "extends h h' \<Longrightarrow> length h \<le> length h'"
  by (simp add: extends_def)

lemma extends_trans: "extends h h1 \<Longrightarrow> extends h1 h2 \<Longrightarrow> extends h h2"
proof (rule extendsI)
  assume a: "extends h h1" "extends h1 h2"
  then show "length h \<le> length h2"
    using extends_length [of h h1] extends_length [of h1 h2] by simp
  show "h2 ! a = h ! a" if "a < length h" for a
  proof -
    from a(1) that have "a < length h1" using extends_length [of h h1] by simp
    with a that show ?thesis by (simp add: extends_nth)
  qed
  show "is_Copy (h2 ! a)" if "length h \<le> a" "a < length h2" for a
  proof (cases "a < length h1")
    case True
    with a(2) have "h2 ! a = h1 ! a" by (simp add: extends_nth)
    moreover from a(1) that(1) True have "is_Copy (h1 ! a)" by (rule extends_new)
    ultimately show ?thesis by simp
  next
    case False
    with a that show ?thesis by (simp add: extends_new)
  qed
qed

lemma extends_alloc: "extends h (h @ [Copy es])"
  by (simp add: extends_def)

lemma extends_write:
  assumes "extends h h1" and "length h \<le> a"
  shows "extends h (h1[a := Copy es])"
proof (rule extendsI)
  show "length h \<le> length (h1[a := Copy es])"
    using assms(1) by (simp add: extends_length)
  show "h1[a := Copy es] ! b = h ! b" if "b < length h" for b
    using assms that by (simp add: extends_nth)
  show "is_Copy (h1[a := Copy es] ! b)" if "length h \<le> b" "b < length (h1[a := Copy es])" for b
    using assms that by (cases "b = a") (simp_all add: extends_new)
qed

lemma value_of_extends: "extends h h' \<Longrightarrow> value_of h' r = value_of h r"
proof (cases r)
  case (Loc a p)
  assume e: "extends h h'"
  show ?thesis
  proof (cases "a < length h")
    case True
    with e have "h' ! a = h ! a" "a < length h'"
      using extends_length [OF e] by (simp_all add: extends_nth)
    with True Loc show ?thesis by simp
  next
    case False
    then have "a < length h' \<Longrightarrow> is_Copy (h' ! a)"
      using e by (simp add: extends_new)
    with False Loc show ?thesis
      by (cases "h' ! a") auto
  qed
qed simp

lemma object_at_append: "object_at v (p @ [i]) = sub_object (object_at v p) i"
  by (induction p arbitrary: v) simp_all

lemma value_of_child_ref: "value_of h (child_ref r i) = sub_object (value_of h r) i"
  by (cases r) (auto simp: object_at_append split: cell.splits)

lemma value_of_items:
  "value_of h value = PDict d \<Longrightarrow> map (\<lambda>(k, r). (k, value_of h r)) (items value d) = d"
  by (rule nth_equalityI) (simp_all add: items_def value_of_child_ref)

lemma value_of_elements:
  "value_of h value = PList xs \<Longrightarrow>
   map (\<lambda>(i, r). (i, value_of h r)) (elements value xs) = enumerate 0 xs"
  by (rule nth_equalityI) (simp_all add: elements_def value_of_child_ref nth_enumerate_eq)

lemma goodD:
  assumes "good chk_h chk" and "chk_h t r h = (x, h1)"
  shows "extends h h1" and "x = chk t (value_of h r)"
  using assms unfolding good_def by (metis snd_conv, metis fst_conv)

lemma catch_error_h_good:
  assumes "good chk_h chk" and "catch_error_h chk_h t r h = (x, h1)"
  shows "extends h h1" and "x = catch_error chk t (value_of h r)"
proof -
  obtain y h' where c: "chk_h t r h = (y, h')" by (cases "chk_h t r h")
  from goodD [OF assms(1) c] have e: "extends h h'" and y: "y = chk t (value_of h r)" .
  from assms(2) c have "h1 = h'" and "x = catch_error (\<lambda>t v. y) t (value_of h r)"
    by (auto simp: catch_error_h_def catch_error_def split: sum.splits exn.splits)
  with e y show "extends h h1" and "x = catch_error chk t (value_of h r)"
    by (simp_all add: catch_error_def)
qed

lemma Or_loop_h_good:
  assumes "good chk_h chk"
  shows "extends h (snd (Or_loop_h chk_h ts r errors h))
         \<and> fst (Or_loop_h chk_h ts r errors h) = Or_loop chk ts (value_of h r) errors"
proof (induction ts arbitrary: errors h)
  case Nil
  then show ?case by simp
next
  case (Cons t ts)
  obtain x h1 where c: "catch_error_h chk_h t r h = (x, h1)"
    by (cases "catch_error_h chk_h t r h")
  from catch_error_h_good [OF assms c]
  have e: "extends h h1" and x: "catch_error chk t (value_of h r) = x" by simp_all
  have v: "value_of h1 r = value_of h r" using e by (rule value_of_extends)
  show ?case
  proof (cases x)
    case (Inl y)
    with c e x show ?thesis by (simp del: catch_iffs)
  next
    case (Inr res)
    show ?thesis
    proof (cases res)
      case (Inl err)
      from Cons.IH [where h = h1 and errors = "errors @ [err]"] e
      have "extends h (snd (Or_loop_h chk_h ts r (errors @ [err]) h1))"
        and "fst (Or_loop_h chk_h ts r (errors @ [err]) h1) = Or_loop chk ts (value_of h r) (errors @ [err])"
        by (auto simp: v intro: extends_trans)
      with c x Inr Inl show ?thesis by (simp del: catch_iffs)
    next
      case (Inr val)
      with c e x \<open>x = Inr res\<close> show ?thesis by (simp del: catch_iffs)
    qed
  qed
qed

lemma List_loop_h_good:
  assumes "good chk_h chk"
  shows "extends h (snd (List_loop_h chk_h t irs lst errors h))
         \<and> fst (List_loop_h chk_h t irs lst errors h)
             = List_loop chk t (map (\<lambda>(i, r). (i, value_of h r)) irs) lst errors"
proof (induction irs arbitrary: lst errors h)
  case Nil
  then show ?case by simp
next
  case (Cons ir irs)
  obtain i r where ir: "ir = (i, r)" by (cases ir)
  obtain x h1 where c: "catch_error_h chk_h t r h = (x, h1)"
    by (cases "catch_error_h chk_h t r h")
  from catch_error_h_good [OF assms c]
  have e: "extends h h1" and x: "catch_error chk t (value_of h r) = x" by simp_all
  have v: "(\<lambda>(i, r). (i, value_of h1 r)) = (\<lambda>(i, r). (i, value_of h r))"
    using e by (simp add: value_of_extends)
  have IH: "\<And>lst errors. extends h (snd (List_loop_h chk_h t irs lst errors h1))
         \<and> fst (List_loop_h chk_h t irs lst errors h1)
             = List_loop chk t (map (\<lambda>(i, r). (i, value_of h r)) irs) lst errors"
    using Cons.IH [where h = h1] e by (auto simp: v intro: extends_trans)
  show ?case
  proof (cases x)
    case (Inl y)
    with c e x show ?thesis unfolding ir by (simp del: catch_iffs)
  next
    case (Inr res)
    with c x IH show ?thesis
      unfolding ir by (cases res) (simp_all del: catch_iffs)
  qed
qed

lemma Mapping_loop_h_good:
  assumes "good chk_h chk"
  shows "extends h (snd (Mapping_loop_h chk_h k krs cm errors h))
         \<and> fst (Mapping_loop_h chk_h k krs cm errors h)
             = Mapping_loop chk k (map (\<lambda>(key, r). (key, value_of h r)) krs) cm errors"
proof (induction krs arbitrary: cm errors h)
  case Nil
  then show ?case by simp
next
  case (Cons kr krs)
  obtain key r where kr: "kr = (key, r)" by (cases kr)
  obtain x h1 where c1: "catch_error_h chk_h (mapping_key k) (Val key) h = (x, h1)"
    by (cases "catch_error_h chk_h (mapping_key k) (Val key) h")
  from catch_error_h_good [OF assms c1]
  have e1: "extends h h1" and x: "catch_error chk (mapping_key k) key = x" by simp_all
  obtain y h2 where c2: "catch_error_h chk_h (mapping_value k) r h1 = (y, h2)"
    by (cases "catch_error_h chk_h (mapping_value k) r h1")
  from catch_error_h_good [OF assms c2] e1
  have e2: "extends h1 h2" and y: "catch_error chk (mapping_value k) (value_of h r) = y"
    by (simp_all add: value_of_extends)
  from e1 e2 have e: "extends h h2" by (rule extends_trans)
  have v: "(\<lambda>(key, r). (key, value_of h2 r)) = (\<lambda>(key, r). (key, value_of h r))"
    using e by (simp add: value_of_extends)
  have IH: "\<And>cm errors. extends h (snd (Mapping_loop_h chk_h k krs cm errors h2))
         \<and> fst (Mapping_loop_h chk_h k krs cm errors h2)
             = Mapping_loop chk k (map (\<lambda>(key, r). (key, value_of h r)) krs) cm errors"
    using Cons.IH [where h = h2] e by (auto simp: v intro: extends_trans)
  show ?case
  proof (cases x)
    case (Inl z)
    with c1 e1 x show ?thesis unfolding kr by (simp del: catch_iffs)
  next
    case xr: (Inr rk)
    show ?thesis
    proof (cases y)
      case (Inl z)
      with c1 c2 e x y xr show ?thesis unfolding kr by (simp del: catch_iffs)
    next
      case yr: (Inr rv)
      with c1 c2 e x y xr IH show ?thesis
        unfolding kr
        by (cases rk; cases rv) (simp_all del: catch_iffs)
    qed
  qed
qed

text \<open>
  \<open>Key.pop\<close> and the loop over the keys: the copy, read by value, is the \<open>data\<close> of
  the frame.
\<close>

lemma map_of_by_value: "map_of (by_value h es) k = map_option (value_of h) (map_of es k)"
  unfolding by_value_def by (induction es) auto

lemma dict_contains_by_value [simp]:
  "dict_contains k (by_value h es) = dict_contains k es"
  by (simp add: dict_contains_def map_of_by_value)

lemma dict_delitem_by_value: "dict_delitem k (by_value h es) = by_value h (dict_delitem k es)"
  unfolding by_value_def dict_delitem_def by (induction es) auto

lemma dict_pop_by_value:
  "dict_pop k (value_of h dflt) (by_value h es)
     = (value_of h (fst (dict_pop k dflt es)), by_value h (snd (dict_pop k dflt es)))"
  by (simp add: dict_pop_def map_of_by_value dict_delitem_by_value split: option.splits)

lemma entries_Copy: "a < length h \<Longrightarrow> h ! a = Copy es \<Longrightarrow> entries h a = es"
  by (simp add: entries_def)

lemma by_value_extends: "extends h h' \<Longrightarrow> by_value h' es = by_value h es"
  by (simp add: by_value_def value_of_extends)

lemma Key_pop_h_good:
  assumes "good chk_h chk" and "extends h0 h" and "length h0 < length h"
      and "h ! length h0 = Copy es"
      and "Key_pop_h chk_h key (length h0) h = (x, h1)"
  shows "extends h0 h1 \<and> length h \<le> length h1 \<and>
     (case Key_pop chk key (by_value h0 es) of
        Inl y \<Rightarrow> x = Inl y
      | Inr (ys, d') \<Rightarrow> x = Inr ys \<and> (\<exists>es'. h1 ! length h0 = Copy es' \<and> by_value h0 es' = d'))"
proof (cases "dict_contains (PStr (key_name key)) es \<or> key_default key \<noteq> PNone")
  case False
  with assms show ?thesis
    by (auto simp: Key_pop_h_def Key_pop_def entries_Copy)
next
  case True
  obtain a es' where p: "dict_pop (PStr (key_name key)) (Val (key_default key)) es = (a, es')"
    by (cases "dict_pop (PStr (key_name key)) (Val (key_default key)) es")
  let ?h = "h[length h0 := Copy es']"
  obtain c h' where c: "catch_error_h chk_h (key_trafaret key) a ?h = (c, h')"
    by (cases "catch_error_h chk_h (key_trafaret key) a ?h")
  have e0: "extends h0 ?h" using assms(2) by (rule extends_write) simp
  from catch_error_h_good [OF assms(1) c]
  have e1: "extends ?h h'" and cc: "c = catch_error chk (key_trafaret key) (value_of ?h a)"
    by simp_all
  have va: "value_of ?h a = value_of h0 a" using e0 by (rule value_of_extends)
  have e: "extends h0 h'" using e0 e1 by (rule extends_trans)
  have len: "length h \<le> length h'" using extends_length [OF e1] by simp
  have cell: "h' ! length h0 = Copy es'"
    using extends_nth [OF e1, of "length h0"] assms(3) by simp
  have pure: "dict_pop (PStr (key_name key)) (key_default key) (by_value h0 es)
                = (value_of h0 a, by_value h0 es')"
    using dict_pop_by_value [of "PStr (key_name key)" h0 "Val (key_default key)" es] p by simp
  have x: "x = (case c of Inl y \<Rightarrow> Inl y | Inr r \<Rightarrow> Inr [(PStr (get_name key), r)])"
    and h1: "h1 = h'"
    using assms(3,4,5) True p c
    by (auto simp: Key_pop_h_def entries_Copy split: sum.splits)
  have cc': "catch_error chk (key_trafaret key) (value_of h0 a) = c"
    using cc va by simp
  have "Key_pop chk key (by_value h0 es)
          = (case c of Inl y \<Rightarrow> Inl y
             | Inr r \<Rightarrow> Inr ([(PStr (get_name key), r)], by_value h0 es'))"
    using True pure cc' by (simp add: Key_pop_def del: catch_iffs)
  then show ?thesis
    using e len cell x unfolding h1 by (cases c) auto
qed

lemma pure_frame_store:
  "foldl Dict_store (pure_frame h es f) ys = pure_frame h es (foldl Dict_store_h f ys)"
proof (induction ys arbitrary: f)
  case Nil
  then show ?case by simp
next
  case (Cons y ys)
  have "Dict_store (pure_frame h es f) y = pure_frame h es (Dict_store_h f y)"
    by (auto simp: Dict_store_def Dict_store_h_def pure_frame_def split: prod.splits sum.splits)
  with Cons.IH show ?case by simp
qed

lemma pure_frame_data [simp]:
  "(pure_frame h es f)\<lparr>fr_data := by_value h es'\<rparr> = pure_frame h es' f"
  by (simp add: pure_frame_def)

lemma hf_data_store [simp]: "hf_data (foldl Dict_store_h f ys) = hf_data f"
  by (induction ys arbitrary: f) (auto simp: Dict_store_h_def split: prod.splits sum.splits)

lemma Dict_keys_loop_h_good:
  assumes "good chk_h chk"
  shows "extends h0 h \<Longrightarrow> length h0 < length h \<Longrightarrow> h ! length h0 = Copy es \<Longrightarrow>
         hf_data f = length h0 \<Longrightarrow> Dict_keys_loop_h chk_h ks f h = (x, h1) \<Longrightarrow>
     extends h0 h1 \<and> length h0 < length h1 \<and>
     (case Dict_keys_loop chk ks (pure_frame h0 es f) of
        Inl y \<Rightarrow> x = Inl y
      | Inr pf1 \<Rightarrow> (\<exists>f1 es1. x = Inr f1 \<and> hf_data f1 = length h0
                      \<and> h1 ! length h0 = Copy es1 \<and> pf1 = pure_frame h0 es1 f1))"
proof (induction ks arbitrary: f h es)
  case Nil
  then show ?case by auto
next
  case (Cons key ks)
  obtain y h' where kp: "Key_pop_h chk_h key (length h0) h = (y, h')"
    by (cases "Key_pop_h chk_h key (length h0) h")
  from Key_pop_h_good [OF assms Cons.prems(1,2,3) kp]
  have e: "extends h0 h'" and len: "length h \<le> length h'"
    and sim: "case Key_pop chk key (by_value h0 es) of
        Inl z \<Rightarrow> y = Inl z
      | Inr (ys, d') \<Rightarrow> y = Inr ys \<and> (\<exists>es'. h' ! length h0 = Copy es' \<and> by_value h0 es' = d')"
    by simp_all
  have data: "fr_data (pure_frame h0 es f) = by_value h0 es"
    by (simp add: pure_frame_def)
  show ?case
  proof (cases "Key_pop chk key (by_value h0 es)")
    case (Inl z)
    with sim have "y = Inl z" by simp
    with Cons.prems(4,5) kp Inl e len Cons.prems(2) show ?thesis
      by (auto simp: data)
  next
    case (Inr res)
    obtain ys d' where res: "res = (ys, d')" by (cases res)
    with sim Inr obtain es' where y: "y = Inr ys" and cell: "h' ! length h0 = Copy es'"
      and d': "by_value h0 es' = d'" by auto
    let ?f = "foldl Dict_store_h f ys"
    have l: "length h0 < length h'" using len Cons.prems(2) by simp
    have loop: "Dict_keys_loop_h chk_h ks ?f h' = (x, h1)"
      using Cons.prems(4,5) kp y by simp
    have fd: "hf_data ?f = length h0" using Cons.prems(4) by simp
    from Cons.IH [OF e l cell fd loop]
    have "extends h0 h1 \<and> length h0 < length h1 \<and>
     (case Dict_keys_loop chk ks (pure_frame h0 es' ?f) of
        Inl y \<Rightarrow> x = Inl y
      | Inr pf1 \<Rightarrow> (\<exists>f1 es1. x = Inr f1 \<and> hf_data f1 = length h0
                      \<and> h1 ! length h0 = Copy es1 \<and> pf1 = pure_frame h0 es1 f1))" .
    moreover have "Dict_keys_loop chk (key # ks) (pure_frame h0 es f)
        = Dict_keys_loop chk ks (pure_frame h0 es' ?f)"
      using Inr res d' [symmetric] by (simp add: data pure_frame_store)
    ultimately show ?thesis by simp
  qed
qed

lemma pure_frame_extra:
  assumes "snapshot h1 (hf_data f) = by_value h es"
  shows "Dict_extra k (pure_frame h es f) key = pure_frame h es (Dict_extra_h k h1 f key)"
  using assms by (simp add: Dict_extra_def Dict_extra_h_def pure_frame_def)

lemma hf_data_extra [simp]: "hf_data (Dict_extra_h k h1 f key) = hf_data f"
  by (simp add: Dict_extra_h_def)

lemma pure_frame_extras:
  assumes "snapshot h1 (hf_data f) = by_value h es"
  shows "foldl (Dict_extra k) (pure_frame h es f) xs
           = pure_frame h es (foldl (Dict_extra_h k h1) f xs)"
  using assms
proof (induction xs arbitrary: f)
  case Nil
  then show ?case by simp
next
  case (Cons x xs)
  from Cons.prems have "snapshot h1 (hf_data (Dict_extra_h k h1 f x)) = by_value h es"
    by simp
  from Cons.IH [OF this] Cons.prems show ?case
    by (simp add: pure_frame_extra)
qed

lemma Dict_check_val_h_good:
  assumes "good chk_h chk"
  shows "extends h (snd (Dict_check_val_h chk_h k r h))
         \<and> fst (Dict_check_val_h chk_h k r h) = Dict_check_val chk k (value_of h r)"
proof (cases "\<exists>d. value_of h r = PDict d")
  case False
  then show ?thesis
    by (cases "value_of h r") (simp_all add: Dict_check_val_h_def Dict_check_val_def)
next
  case True
  then obtain d where d: "value_of h r = PDict d" by blast
  let ?h = "h @ [Copy (items r d)]"
  let ?f = "\<lparr>hf_data = length h, hf_collect = [], hf_errors = []\<rparr>"
  obtain x h1 where loop: "Dict_keys_loop_h chk_h (keys k) ?f ?h = (x, h1)"
    by (cases "Dict_keys_loop_h chk_h (keys k) ?f ?h")
  have pf: "pure_frame h (items r d) ?f = \<lparr>fr_data = d, fr_collect = [], fr_errors = []\<rparr>"
    using value_of_items [OF d] by (simp add: pure_frame_def by_value_def)
  from Dict_keys_loop_h_good [OF assms extends_alloc _ _ _ loop, of "items r d"]
  have e: "extends h h1" and len: "length h < length h1"
    and sim: "case Dict_keys_loop chk (keys k) \<lparr>fr_data = d, fr_collect = [], fr_errors = []\<rparr> of
        Inl y \<Rightarrow> x = Inl y
      | Inr pf1 \<Rightarrow> (\<exists>f1 es1. x = Inr f1 \<and> hf_data f1 = length h
                      \<and> h1 ! length h = Copy es1 \<and> pf1 = pure_frame h es1 f1)"
    by (simp_all add: pf)
  show ?thesis
  proof (cases "Dict_keys_loop chk (keys k) \<lparr>fr_data = d, fr_collect = [], fr_errors = []\<rparr>")
    case (Inl y)
    with sim have "x = Inl y" by simp
    with d loop e Inl show ?thesis
      by (simp add: Dict_check_val_h_def Dict_check_val_def)
  next
    case (Inr pf1)
    with sim obtain f1 es1 where x: "x = Inr f1" and fd: "hf_data f1 = length h"
      and cell: "h1 ! length h = Copy es1" and pf1: "pf1 = pure_frame h es1 f1" by auto
    have ent: "entries h1 (hf_data f1) = es1"
      using len cell fd by (simp add: entries_Copy)
    have snap: "snapshot h1 (hf_data f1) = by_value h es1"
      using ent by_value_extends [OF e, of es1] by (simp add: snapshot_def by_value_def)
    have keys: "map fst (fr_data pf1) = map fst es1"
      by (simp add: pf1 pure_frame_def by_value_def comp_def case_prod_beta)
    have ex: "foldl (Dict_extra k) pf1 (map fst es1)
               = pure_frame h es1 (foldl (Dict_extra_h k h1) f1 (map fst es1))"
      unfolding pf1 using snap by (rule pure_frame_extras)
    show ?thesis
      using d loop e x Inr ent keys ex
      by (simp add: Dict_check_val_h_def Dict_check_val_def Let_def pf1 pure_frame_def)
  qed
qed

lemma check_val_h_good:
  assumes "good chk_h chk"
  shows "extends h (snd (check_val_h chk_h env k r h))
         \<and> fst (check_val_h chk_h env k r h) = check_val chk env k (value_of h r)"
proof (cases k)
  case (OrT ts)
  with Or_loop_h_good [OF assms] show ?thesis
    by (simp add: check_val_h_def check_val_def Or_check_val_h_def Or_check_val_def)
next
  case (ListT t mn mx)
  show ?thesis
  proof (cases "value_of h r")
    case (PList xs)
    with ListT List_loop_h_good [OF assms, of h t "elements r xs" "[]" "[]"]
      value_of_elements [OF PList]
    show ?thesis
      by (auto simp: check_val_h_def check_val_def List_check_val_h_def List_check_val_def
               split: prod.splits sum.splits)
  qed (simp_all add: ListT check_val_h_def check_val_def List_check_val_h_def List_check_val_def)
next
  case (DictT ex aa ig ia ks)
  with Dict_check_val_h_good [OF assms] show ?thesis
    by (simp add: check_val_h_def check_val_def)
next
  case (MappingT tk tv)
  show ?thesis
  proof (cases "value_of h r")
    case (PDict d)
    with MappingT Mapping_loop_h_good [OF assms, of h k "items r d" "[]" "[]"]
      value_of_items [OF PDict]
    show ?thesis
      by (auto simp: check_val_h_def check_val_def Mapping_check_val_h_def Mapping_check_val_def
               split: prod.splits sum.splits)
  qed (simp_all add: MappingT check_val_h_def check_val_def Mapping_check_val_h_def
         Mapping_check_val_def)
next
  case (ForwardT a)
  with assms show ?thesis
    by (auto simp: check_val_h_def check_val_def Forward_check_val_h_def Forward_check_val_def
                   good_def split: option.splits)
qed (simp_all add: check_val_h_def check_val_def)

lemma check_h_good: "good (check_h n env) (check n env)"
proof (induction n)
  case 0
  then show ?case by (simp add: good_def)
next
  case (Suc n)
  show ?case
    unfolding good_def
  proof (intro allI)
    fix t r h
    show "extends h (snd (check_h (Suc n) env t r h))
          \<and> fst (check_h (Suc n) env t r h) = check (Suc n) env t (value_of h r)"
    proof (cases "has_check (kind t)")
      case True
      then show ?thesis by (simp split: sum.splits)
    next
      case False
      with check_val_h_good [OF Suc, of h env "kind t" r] show ?thesis
        by (auto split: prod.splits sum.splits)
    qed
  qed
qed

text \<open>
  C9. A call of \<open>check\<close> writes to one kind of object that it did not build from
  nothing: the dict \<open>data\<close>, from which \<open>Key.pop\<close> pops, and that is the copy made by the
  same call. So, on every heap \<open>h\<close>, for every schema (the trafaret \<open>t\<close> and the store
  \<open>env\<close> of \<open>Forward\<close> bindings) and every argument \<open>r\<close>:

    \<^item> a call of \<open>check\<close> made after another call of \<open>check\<close> (of the same schema on the
      same argument, or of any schema on any argument) returns or raises what it
      would have without that call;

    \<^item> what it returns or raises is what \<open>check\<close> gives on the value of the argument,
      whatever else the heap holds;

    \<^item> the heap that it leaves has every object of \<open>h\<close> as it was, and after them the
      copies that \<open>Dict._check_val\<close> made.
\<close>

theorem check_twice_same_result:
  "fst (check_h n env t r (snd (check_h m env' t' r' h))) = fst (check_h n env t r h)
   \<and> fst (check_h n env t r h) = check n env t (value_of h r)
   \<and> extends h (snd (check_h n env t r h))"
proof -
  let ?h' = "snd (check_h m env' t' r' h)"
  from check_h_good [of m env'] have e: "extends h ?h'"
    by (simp add: good_def)
  from check_h_good [of n env]
  have a: "fst (check_h n env t r ?h') = check n env t (value_of ?h' r)"
    and b: "fst (check_h n env t r h) = check n env t (value_of h r)"
    and c: "extends h (snd (check_h n env t r h))"
    by (simp_all add: good_def)
  from a b c value_of_extends [OF e, of r] show ?thesis by simp
qed

text \<open>
  \<open>Dict(foo=Int).allow_extra('eggs')\<close> on the caller's dict \<open>{'foo': 1, 'eggs': None}\<close>:
  the call leaves the caller's dict as it was and a copy that has lost \<open>foo\<close>; a second
  call, on the heap with that copy, gives the same result.
\<close>

theorem check_twice_same_result_witness:
  "check_h (Suc (Suc 0)) (\<lambda>a. None)
     (Trafaret (DictT [PStr ''eggs''] False [] False
        [Key ''foo'' PNone False None (Trafaret (IntT None None None None) None)]) None)
     (Loc 0 [])
     [Tree (PDict [(PStr ''foo'', PInt 1), (PStr ''eggs'', PNone)])]
   = (Inr (PDict [(PStr ''foo'', PInt 1), (PStr ''eggs'', PDict [(PStr ''eggs'', PNone)])]),
      [Tree (PDict [(PStr ''foo'', PInt 1), (PStr ''eggs'', PNone)]),
       Copy [(PStr ''eggs'', Loc 0 [Suc 0])]])
   \<and>
   fst (check_h (Suc (Suc 0)) (\<lambda>a. None)
     (Trafaret (DictT [PStr ''eggs''] False [] False
        [Key ''foo'' PNone False None (Trafaret (IntT None None None None) None)]) None)
     (Loc 0 [])
     [Tree (PDict [(PStr ''foo'', PInt 1), (PStr ''eggs'', PNone)]),
      Copy [(PStr ''eggs'', Loc 0 [Suc 0])]])
   = Inr (PDict [(PStr ''foo'', PInt 1), (PStr ''eggs'', PDict [(PStr ''eggs'', PNone)])])"
  (is "check_h ?n ?e ?t ?r ?h = (?res, ?h') \<and> _")
proof -
  have a: "check_h ?n ?e ?t ?r ?h = (?res, ?h')"
    by (simp add: leaf_defs dict_defs check_val_h_def Dict_check_val_h_def Key_pop_h_def
          catch_error_h_def Dict_store_h_def Dict_extra_h_def items_def entries_def
          snapshot_def upt_rec)
  from check_twice_same_result [of ?n ?e ?t ?r ?n ?e ?t ?r ?h] a show ?thesis
    by (simp del: check_h.simps)
qed

section \<open>Forward\<close>

text \<open>
  C7. \<open>provide\<close> binds an unbound \<open>Forward\<close> and raises \<open>RuntimeError\<close>, which is not
  a \<open>DataError\<close>, on a bound one. Once bound, \<open>check\<close> on the \<open>Forward\<close> is \<open>check\<close> on
  the bound trafaret, one call deeper; converters appended to the \<open>Forward\<close> itself
  are applied to what the bound trafaret returns.
\<close>

theorem Forward_provide_once_then_delegates:
  "(env a = None \<longrightarrow> provide env a t = Inr (env(a := Some t)))
   \<and> (env a \<noteq> None \<longrightarrow>
        provide env a t = Inl (RuntimeError ''trafaret for Forward is already specified''))
   \<and> (provide env a t = Inr env' \<longrightarrow>
        check (Suc n) env' (Trafaret (ForwardT a) None) value = check n env' t value
        \<and> check (Suc n) env' (Trafaret (ForwardT a) cs) value
            = (case check n env' t value of Inl x \<Rightarrow> Inl x | Inr r \<Rightarrow> Inr (convert cs r)))"
  by (auto simp: provide_def check_val_def Forward_check_val_def split: sum.splits if_splits)

theorem Forward_provide_once_then_delegates_witness:
  "provide (\<lambda>a. None) 0
     (Trafaret (DictT [] False [] False
        [Key ''name'' PNone False None (Trafaret (StringT False) None),
         Key ''children'' PNone False None
           (Trafaret (ListT (Trafaret (ForwardT 0) None) 0 None) None)]) None)
   = Inr ((\<lambda>a. None)(0 := Some
     (Trafaret (DictT [] False [] False
        [Key ''name'' PNone False None (Trafaret (StringT False) None),
         Key ''children'' PNone False None
           (Trafaret (ListT (Trafaret (ForwardT 0) None) 0 None) None)]) None)))
   \<and> provide ((\<lambda>a. None)(0 := Some
     (Trafaret (DictT [] False [] False
        [Key ''name'' PNone False None (Trafaret (StringT False) None),
         Key ''children'' PNone False None
           (Trafaret (ListT (Trafaret (ForwardT 0) None) 0 None) None)]) None))) 0
         (Trafaret AnyT None)
       = Inl (RuntimeError ''trafaret for Forward is already specified'')
   \<and> check (Suc 5) ((\<lambda>a. None)(0 := Some
     (Trafaret (DictT [] False [] False
        [Key ''name'' PNone False None (Trafaret (StringT False) None),
         Key ''children'' PNone False None
           (Trafaret (ListT (Trafaret (ForwardT 0) None) 0 None) None)]) None)))
        (Trafaret (ForwardT 0) None)
        (PDict [(PStr ''name'', PStr ''foo''),
                (PStr ''children'', PList [PDict [(PStr ''name'', PStr ''bar''),
                                                   (PStr ''children'', PList [])]])])
     = check 5 ((\<lambda>a. None)(0 := Some
     (Trafaret (DictT [] False [] False
        [Key ''name'' PNone False None (Trafaret (StringT False) None),
         Key ''children'' PNone False None
           (Trafaret (ListT (Trafaret (ForwardT 0) None) 0 None) None)]) None)))
     (Trafaret (DictT [] False [] False
        [Key ''name'' PNone False None (Trafaret (StringT False) None),
         Key ''children'' PNone False None
           (Trafaret (ListT (Trafaret (ForwardT 0) None) 0 None) None)]) None)
        (PDict [(PStr ''name'', PStr ''foo''),
                (PStr ''children'', PList [PDict [(PStr ''name'', PStr ''bar''),
                                                   (PStr ''children'', PList [])]])])
   \<and> check (Suc 5) ((\<lambda>a. None)(0 := Some
     (Trafaret (DictT [] False [] False
        [Key ''name'' PNone False None (Trafaret (StringT False) None),
         Key ''children'' PNone False None
           (Trafaret (ListT (Trafaret (ForwardT 0) None) 0 None) None)]) None)))
        (Trafaret (ForwardT 0) None)
        (PDict [(PStr ''name'', PStr ''foo''),
                (PStr ''children'', PList [PDict [(PStr ''name'', PStr ''bar''),
                                                   (PStr ''children'', PList [])]])])
     = Inr (PDict [(PStr ''name'', PStr ''foo''),
                (PStr ''children'', PList [PDict [(PStr ''name'', PStr ''bar''),
                                                   (PStr ''children'', PList [])]])])"
  (is "provide ?e0 0 ?tree = Inr ?e1 \<and> _ \<and> check _ _ ?node ?v = _ \<and> _")
proof -
  have p1: "provide ?e0 0 ?tree = Inr ?e1"
    using Forward_provide_once_then_delegates [of ?e0 0 ?tree] by simp
  have p2: "provide ?e1 0 (Trafaret AnyT None)
              = Inl (RuntimeError ''trafaret for Forward is already specified'')"
    using Forward_provide_once_then_delegates [of ?e1 0 "Trafaret AnyT None"] by simp
  have p3: "check (Suc 5) ?e1 ?node ?v = check 5 ?e1 ?tree ?v"
    using p1 Forward_provide_once_then_delegates [of ?e0 0 ?tree ?e1 5 ?v] by blast
  have p4: "check 5 ?e1 ?tree ?v = Inr ?v"
    by (simp add: eval_nat_numeral leaf_defs dict_defs Forward_check_val_def
          List_check_val_def enumerate_eq_zip)
  from p1 p2 p3 p4 show ?thesis by simp
qed

section \<open>Converters\<close>

lemma kind_append [simp]: "kind (append c t) = kind t"
  by (simp add: append_def split: option.splits)

lemma appended_append [simp]: "appended (append c t) = appended t @ [c]"
  by (simp add: append_def appended_def split: option.splits)

lemma kind_append_all [simp]: "kind (append_all cs t) = kind t"
  unfolding append_all_def by (induction cs arbitrary: t) simp_all

lemma appended_append_all [simp]: "appended (append_all cs t) = appended t @ cs"
  unfolding append_all_def by (induction cs arbitrary: t) simp_all

lemma convert_appended:
  "convert (converters t) value = foldl (\<lambda>val c. c val) value (appended t)"
  by (simp add: appended_def split: option.splits)

lemma check_Suc_own:
  "check (Suc n) env t value =
     (case own_validation n env t value of
        Inl x \<Rightarrow> Inl x
      | Inr w \<Rightarrow> Inr (foldl (\<lambda>val c. c val) w (appended t)))"
  by (simp add: own_validation_def convert_appended split: sum.splits)

text \<open>
  C8. When the trafaret's own validation returns \<open>w\<close>, \<open>check\<close> returns \<open>w\<close> passed
  through the appended converters, each one once, in the order they were appended,
  each applied to the result of the one before: the result is the last converter's.
  When the validation raises, \<open>check\<close> raises the same, whatever the converters are.
\<close>

theorem check_applies_converters_in_order:
  "(own_validation n env t value = Inr w \<longrightarrow>
      check (Suc n) env (append_all cs t) value
        = Inr (foldl (\<lambda>val c. c val) w (appended t @ cs)))
   \<and> (own_validation n env t value = Inl x \<longrightarrow>
      check (Suc n) env (append_all cs t) value = Inl x)
   \<and> foldl (\<lambda>val c. c val) w (l @ [c]) = c (foldl (\<lambda>val c. c val) w l)"
proof -
  have "own_validation n env (append_all cs t) value = own_validation n env t value"
    by (simp add: own_validation_def)
  then show ?thesis
    by (simp add: check_Suc_own del: check.simps)
qed

text \<open>
  The doctest \<open>(Int() >> (lambda x: x * 2) >> (lambda x: x * 3)).check(1)\<close> is \<open>6\<close>; and
  on \<open>'x'\<close>, which \<open>Int\<close> rejects, the converter is not run.
\<close>

theorem check_applies_converters_in_order_witness:
  "own_validation 0 (\<lambda>a. None) (Trafaret (IntT None None None None) None) (PInt 1)
     = Inr (PInt 1)
   \<and> check (Suc 0) (\<lambda>a. None)
       (append_all [\<lambda>v. case v of PInt x \<Rightarrow> PInt (x * 2) | _ \<Rightarrow> v,
                    \<lambda>v. case v of PInt x \<Rightarrow> PInt (x * 3) | _ \<Rightarrow> v]
          (Trafaret (IntT None None None None) None)) (PInt 1) = Inr (PInt 6)
   \<and> own_validation 0 (\<lambda>a. None) (Trafaret (IntT None None None None) None) (PStr ''x'')
       = Inl (DataError (ErrMsg ''value can't be converted to int''))
   \<and> check (Suc 0) (\<lambda>a. None)
       (append_all [\<lambda>v. PNone]
          (Trafaret (IntT None None None None) None)) (PStr ''x'')
       = Inl (DataError (ErrMsg ''value can't be converted to int''))"
proof -
  have a: "own_validation 0 (\<lambda>a. None) (Trafaret (IntT None None None None) None) (PInt 1)
             = Inr (PInt 1)"
    by (simp add: own_validation_def leaf_defs)
  have b: "own_validation 0 (\<lambda>a. None) (Trafaret (IntT None None None None) None) (PStr ''x'')
             = Inl (DataError (ErrMsg ''value can't be converted to int''))"
    by (simp add: own_validation_def leaf_defs int_of_str_def strip_def is_space_def
          nat_of_digits_def is_digit_def)
  from a b check_applies_converters_in_order
     [of 0 "\<lambda>a. None" "Trafaret (IntT None None None None) None" "PInt 1" "PInt 1"
         "[\<lambda>v. case v of PInt x \<Rightarrow> PInt (x * 2) | _ \<Rightarrow> v,
           \<lambda>v. case v of PInt x \<Rightarrow> PInt (x * 3) | _ \<Rightarrow> v]"]
    check_applies_converters_in_order
     [of 0 "\<lambda>a. None" "Trafaret (IntT None None None None) None" "PStr ''x''" _
         "[\<lambda>v. PNone]" "DataError (ErrMsg ''value can't be converted to int'')"]
  show ?thesis by (simp add: appended_def del: check.simps)
qed

section \<open>Key: the default None\<close>

text \<open>
  C10. A key that is absent from the input and has the default \<open>None\<close> is handled as
  a key with no default: \<open>Key.pop\<close> yields \<open>is required\<close> under the key's name when the
  key is not optional and nothing when it is, and the child trafaret is not called.
  Only a default other than \<open>None\<close> is handed to the child trafaret. \<open>make_optional\<close>
  sets \<open>optional\<close> and resets the default to \<open>None\<close>.
\<close>

theorem Key_default_None_is_no_default:
  "(key_default key = PNone \<longrightarrow> \<not> dict_contains (PStr (key_name key)) data \<longrightarrow>
      Key_pop chk key data
        = Inr (if optional key then []
               else [(PStr (key_name key), Inl (ErrMsg ''is required''))], data))
   \<and> (key_default key \<noteq> PNone \<longrightarrow> \<not> dict_contains (PStr (key_name key)) data \<longrightarrow>
      Key_pop chk key data
        = (case catch_error chk (key_trafaret key) (key_default key) of
             Inl x \<Rightarrow> Inl x
           | Inr r \<Rightarrow> Inr ([(PStr (get_name key), r)], data)))
   \<and> key_default (make_optional key) = PNone
   \<and> optional (make_optional key)
   \<and> key_name (make_optional key) = key_name key
   \<and> to_name (make_optional key) = to_name key
   \<and> key_trafaret (make_optional key) = key_trafaret key"
  by (simp add: Key_pop_def dict_pop_def dict_contains_def make_optional_def)

theorem Key_default_None_is_no_default_witness:
  "Key_pop (check 1 (\<lambda>a. None)) (Key ''a'' PNone False None (Trafaret AnyT None)) []
     = Inr ([(PStr ''a'', Inl (ErrMsg ''is required''))], [])
   \<and> Key_pop (check 1 (\<lambda>a. None)) (Key ''a'' PNone True None (Trafaret AnyT None)) []
     = Inr ([], [])
   \<and> Key_pop (check 1 (\<lambda>a. None)) (Key ''a'' (PInt 0) False None (Trafaret AnyT None)) []
     = Inr ([(PStr ''a'', Inr (PInt 0))], [])
   \<and> make_optional (Key ''a'' (PInt 0) False None (Trafaret AnyT None))
     = Key ''a'' PNone True None (Trafaret AnyT None)"
  using Key_default_None_is_no_default
          [of "Key ''a'' PNone False None (Trafaret AnyT None)" "[]" "check 1 (\<lambda>a. None)"]
        Key_default_None_is_no_default
          [of "Key ''a'' PNone True None (Trafaret AnyT None)" "[]" "check 1 (\<lambda>a. None)"]
        Key_default_None_is_no_default
          [of "Key ''a'' (PInt 0) False None (Trafaret AnyT None)" "[]" "check 1 (\<lambda>a. None)"]
  by (simp add: dict_contains_def get_name_def leaf_defs make_optional_def)

section \<open>Dict: renamed key with a default\<close>

text \<open>
  C6. The schema \<open>Dict({Key('bar', default=d) >> 'baz': t}, foo=Int)\<close> has the keys \<open>foo\<close>
  and \<open>bar\<close>, in this order; \<open>d\<close> is any default but \<open>None\<close> and \<open>t\<close> any trafaret.
  Checking \<open>{'foo': 4}\<close> hands the default to \<open>t\<close>: what \<open>t\<close> returns for \<open>d\<close> is written
  under \<open>baz\<close>, a \<open>DataError\<close> of \<open>t\<close> on \<open>d\<close> is reported under \<open>baz\<close>, and any other
  exception of \<open>t\<close> is raised. An input that has \<open>'bar': d\<close> itself gives the same
  result: the default is checked like a present value. A \<open>'baz'\<close> in the input does
  not count as the key being present: the default is still checked, and \<open>baz\<close> is
  refused as an extra key. With \<open>d = 'nyanya'\<close> and \<open>t = String\<close> the result is exactly
  \<open>{'foo': 4, 'baz': 'nyanya'}\<close>.
\<close>

theorem Dict_default_goes_through_child:
  assumes "d \<noteq> PNone"
  shows
  "check (Suc (Suc n)) env
     (Trafaret (DictT [] False [] False
        [Key ''foo'' PNone False None (Trafaret (IntT None None None None) None),
         Key ''bar'' d False (Some ''baz'') t]) None)
     (PDict [(PStr ''foo'', PInt 4)])
   = (if is_crash (check (Suc n) env t d) then check (Suc n) env t d
      else if is_DataError (check (Suc n) env t d)
      then Inl (DataError (ErrDict [(PStr ''baz'', the_DataError (check (Suc n) env t d))]))
      else Inr (PDict [(PStr ''foo'', PInt 4), (PStr ''baz'', the_value (check (Suc n) env t d))]))
   \<and>
   check (Suc (Suc n)) env
     (Trafaret (DictT [] False [] False
        [Key ''foo'' PNone False None (Trafaret (IntT None None None None) None),
         Key ''bar'' d False (Some ''baz'') t]) None)
     (PDict [(PStr ''foo'', PInt 4), (PStr ''bar'', d)])
   = check (Suc (Suc n)) env
     (Trafaret (DictT [] False [] False
        [Key ''foo'' PNone False None (Trafaret (IntT None None None None) None),
         Key ''bar'' d False (Some ''baz'') t]) None)
     (PDict [(PStr ''foo'', PInt 4)])
   \<and>
   check (Suc (Suc n)) env
     (Trafaret (DictT [] False [] False
        [Key ''foo'' PNone False None (Trafaret (IntT None None None None) None),
         Key ''bar'' d False (Some ''baz'') t]) None)
     (PDict [(PStr ''foo'', PInt 4), (PStr ''baz'', PStr ''x'')])
   = (if is_crash (check (Suc n) env t d) then check (Suc n) env t d
      else Inl (DataError (ErrDict [(PStr ''baz'', ErrMsg ''baz is not allowed key'')])))"
proof -
  have int: "check (Suc n) env (Trafaret (IntT None None None None) None) (PInt 4) = Inr (PInt 4)"
    by (simp add: leaf_defs)
  note step = check.simps(2) [of "Suc n" env]
  show ?thesis
    using assms int
    by (cases "check (Suc n) env t d" rule: is_crash.cases)
       (simp_all add: step check_val_def Dict_check_val_def Key_pop_def Dict_store_def
          Dict_extra_def get_name_def dict_contains_def dict_pop_def dict_delitem_def
          catch_error_def del: check.simps)
qed

text \<open>
  The doctest's schema, with the default \<open>'nyanya'\<close> that \<open>String\<close> accepts, and the same
  schema with the default \<open>5\<close> that \<open>String\<close> rejects.
\<close>

theorem Dict_default_goes_through_child_witness:
  "check (Suc (Suc 0)) (\<lambda>a. None)
     (Trafaret (DictT [] False [] False
        [Key ''foo'' PNone False None (Trafaret (IntT None None None None) None),
         Key ''bar'' (PStr ''nyanya'') False (Some ''baz'') (Trafaret (StringT False) None)]) None)
     (PDict [(PStr ''foo'', PInt 4)])
   = Inr (PDict [(PStr ''foo'', PInt 4), (PStr ''baz'', PStr ''nyanya'')])
   \<and>
   check (Suc (Suc 0)) (\<lambda>a. None)
     (Trafaret (DictT [] False [] False
        [Key ''foo'' PNone False None (Trafaret (IntT None None None None) None),
         Key ''bar'' (PInt 5) False (Some ''baz'') (Trafaret (StringT False) None)]) None)
     (PDict [(PStr ''foo'', PInt 4)])
   = Inl (DataError (ErrDict [(PStr ''baz'', ErrMsg ''value is not string'')]))"
proof -
  let ?str = "Trafaret (StringT False) None"
  have a: "check (Suc 0) (\<lambda>a. None) ?str (PStr ''nyanya'') = Inr (PStr ''nyanya'')"
    by (simp add: leaf_defs)
  have b: "check (Suc 0) (\<lambda>a. None) ?str (PInt 5)
             = Inl (DataError (ErrMsg ''value is not string''))"
    by (simp add: leaf_defs)
  have n: "PStr ''nyanya'' \<noteq> PNone" "PInt 5 \<noteq> PNone"
    by simp_all
  from a b
    Dict_default_goes_through_child [OF n(1), of 0 "\<lambda>a. None" ?str]
    Dict_default_goes_through_child [OF n(2), of 0 "\<lambda>a. None" ?str]
  show ?thesis by (simp del: check.simps)
qed

end
